theory Spec2Isabelle
  imports Complex_Main "HOL-Library.Sublist"
begin

section \<open>Expression style recognition: data model\<close>

text \<open>
  The source (\<^verbatim>\<open>Expression_style_recognition.py\<close>) keeps every table in a rectangular numpy
  array of floats.  A row of a note array is \<^verbatim>\<open>[pitch, onset, duration]\<close>; a row of the
  expression-style-note (ESN) array has the twelve columns listed in the module docstring:
  \<^verbatim>\<open>Pit On Dur PreB B R P H S SI SO V\<close> (columns 0 to 11).  A row is modelled as a record
  with one field per column, numbers as \<^typ>\<open>real\<close> (the rounding of float64 arithmetic
  is not modelled).
\<close>

record raw_note =
  pitch :: real
  onset :: real
  duration :: real

record esn = raw_note +
  prebend :: real
  bend :: real
  release :: real
  pull :: real
  hamm :: real
  slide :: real
  slide_in :: real
  slide_out :: real
  vibrato :: real

datatype error = UnboundLocalError | IndexError

text \<open>Column access by number, as in \<^verbatim>\<open>expression_style_note[r, c]\<close>.\<close>

definition esn_get :: "nat \<Rightarrow> esn \<Rightarrow> real" where
  "esn_get c r =
     (if c = 0 then pitch r else if c = 1 then onset r else if c = 2 then duration r
      else if c = 3 then prebend r else if c = 4 then bend r else if c = 5 then release r
      else if c = 6 then pull r else if c = 7 then hamm r else if c = 8 then slide r
      else if c = 9 then slide_in r else if c = 10 then slide_out r else vibrato r)"

definition esn_set :: "nat \<Rightarrow> real \<Rightarrow> esn \<Rightarrow> error + esn" where
  "esn_set c v r =
     (if c = 0 then Inr (r\<lparr>pitch := v\<rparr>) else if c = 1 then Inr (r\<lparr>onset := v\<rparr>)
      else if c = 2 then Inr (r\<lparr>duration := v\<rparr>) else if c = 3 then Inr (r\<lparr>prebend := v\<rparr>)
      else if c = 4 then Inr (r\<lparr>bend := v\<rparr>) else if c = 5 then Inr (r\<lparr>release := v\<rparr>)
      else if c = 6 then Inr (r\<lparr>pull := v\<rparr>) else if c = 7 then Inr (r\<lparr>hamm := v\<rparr>)
      else if c = 8 then Inr (r\<lparr>slide := v\<rparr>) else if c = 9 then Inr (r\<lparr>slide_in := v\<rparr>)
      else if c = 10 then Inr (r\<lparr>slide_out := v\<rparr>) else if c = 11 then Inr (r\<lparr>vibrato := v\<rparr>)
      else Inl IndexError)"

text \<open>
  A row with zero-initialised technique columns, as \<^verbatim>\<open>WildVibrato.detect\<close> builds the table:
  \<^verbatim>\<open>np.hstack((merged_notes, np.zeros((merged_notes.shape[0], 9))))\<close>.
\<close>

definition esn_of_note :: "raw_note \<Rightarrow> esn" where
  "esn_of_note n =
     \<lparr>pitch = pitch n, onset = onset n, duration = duration n, prebend = 0, bend = 0,
      release = 0, pull = 0, hamm = 0, slide = 0, slide_in = 0, slide_out = 0, vibrato = 0\<rparr>"

text \<open>
  \<^verbatim>\<open>np.delete(arr, obj, axis=0)\<close> with a list of row numbers, all in range: the rows whose
  number occurs in the list are left out, the others keep their order (a number listed
  twice deletes once).
\<close>

definition np_delete :: "'a list \<Rightarrow> nat list \<Rightarrow> 'a list" where
  "np_delete arr obj = map (\<lambda>i. arr ! i) (filter (\<lambda>i. i \<notin> set obj) [0..<length arr])"

text \<open>A \<^verbatim>\<open>for\<close> loop whose body may raise: the first error ends the loop.\<close>

fun foldM :: "('a \<Rightarrow> 's \<Rightarrow> error + 's) \<Rightarrow> 'a list \<Rightarrow> 's \<Rightarrow> error + 's" where
  "foldM f [] s = Inr s"
| "foldM f (x # xs) s = (case f x s of Inl e \<Rightarrow> Inl e | Inr s' \<Rightarrow> foldM f xs s')"

section \<open>\<^verbatim>\<open>Common.update_esn\<close>\<close>

text \<open>
  The \<^verbatim>\<open>if/elif\<close> chain that binds the local \<^verbatim>\<open>t\<close>; for any other string \<^verbatim>\<open>t\<close> stays
  unbound, and its first use raises.
\<close>

definition tech_col :: "string \<Rightarrow> nat option" where
  "tech_col technique =
     (if technique = ''pre-bend'' then Some 3
      else if technique = ''bend'' then Some 4
      else if technique = ''release'' then Some 5
      else if technique = ''pull'' then Some 6
      else if technique = ''hamm'' then Some 7
      else if technique = ''slide'' then Some 8
      else if technique = ''slide in'' then Some 9
      else if technique = ''slide out'' then Some 10
      else if technique = ''vibrato'' then Some 11
      else None)"

text \<open>
  The two assignments
  \<^verbatim>\<open>expression_style_note[r_esn,2]=note_with_expression_style[r_n,2]\<close> and
  \<^verbatim>\<open>expression_style_note[r_esn,t]=sub_technique\<close>, in this order.
\<close>

definition tag :: "nat option \<Rightarrow> real \<Rightarrow> real \<Rightarrow> nat \<Rightarrow> esn list \<Rightarrow> error + esn list" where
  "tag t dur sub_technique r_esn expression_style_note =
     (case t of
        None \<Rightarrow> Inl UnboundLocalError
      | Some c \<Rightarrow>
          (case esn_set c sub_technique ((expression_style_note ! r_esn)\<lparr>duration := dur\<rparr>) of
             Inl e \<Rightarrow> Inl e
           | Inr row \<Rightarrow> Inr (expression_style_note[r_esn := row])))"

text \<open>
  The innermost loop, \<^verbatim>\<open>for r_esn_r in range(r_esn+1, len(expression_style_note))\<close>, from
  row \<open>r\<close> on; the state is the table (mutated in place by the source) and
  \<^verbatim>\<open>note_to_be_deleted\<close>.  Both \<^verbatim>\<open>break\<close>s end the recursion.
\<close>

function walk ::
  "raw_note \<Rightarrow> nat option \<Rightarrow> real \<Rightarrow> nat \<Rightarrow> nat \<Rightarrow> esn list \<Rightarrow> nat list \<Rightarrow> error + (esn list \<times> nat list)"
where
  "walk n t sub_technique r_esn r expression_style_note note_to_be_deleted =
     (if r < length expression_style_note then
        (let expression_style_note_offset =
               onset (expression_style_note ! r) + duration (expression_style_note ! r);
             note_with_expression_style_offset = onset n + duration n
         in if expression_style_note_offset \<ge> note_with_expression_style_offset then
              (if onset (expression_style_note ! r) > note_with_expression_style_offset then
                 (case tag t (duration n) sub_technique r_esn expression_style_note of
                    Inl e \<Rightarrow> Inl e
                  | Inr esn' \<Rightarrow> Inr (esn', note_to_be_deleted))
               else
                 (case tag t (duration n) sub_technique r_esn expression_style_note of
                    Inl e \<Rightarrow> Inl e
                  | Inr esn' \<Rightarrow> Inr (esn', note_to_be_deleted @ [r])))
            else walk n t sub_technique r_esn (r + 1) expression_style_note
                   (note_to_be_deleted @ [r]))
      else Inr (expression_style_note, note_to_be_deleted))"
  by pat_completeness auto
termination
  by (relation "measure (\<lambda>(n, t, s, r_esn, r, e, d). length e - r)") auto

declare walk.simps [simp del]

text \<open>The body of \<^verbatim>\<open>for r_esn in range(len(expression_style_note))\<close>.\<close>

definition esn_step ::
  "raw_note \<Rightarrow> nat option \<Rightarrow> real \<Rightarrow> nat \<Rightarrow> esn list \<times> nat list \<Rightarrow> error + (esn list \<times> nat list)"
where
  "esn_step n t sub_technique r_esn s =
     (case s of (expression_style_note, note_to_be_deleted) \<Rightarrow>
        if onset n = onset (expression_style_note ! r_esn) then
          (if duration (expression_style_note ! r_esn) \<ge> duration n then
             (case tag t (duration n) sub_technique r_esn expression_style_note of
                Inl e \<Rightarrow> Inl e
              | Inr esn' \<Rightarrow> Inr (esn', note_to_be_deleted))
           else walk n t sub_technique r_esn (r_esn + 1) expression_style_note note_to_be_deleted)
        else Inr (expression_style_note, note_to_be_deleted))"

text \<open>The body of \<^verbatim>\<open>for r_n in range(len(note_with_expression_style))\<close>.\<close>

definition note_step ::
  "nat option \<Rightarrow> real \<Rightarrow> raw_note \<Rightarrow> esn list \<times> nat list \<Rightarrow> error + (esn list \<times> nat list)"
where
  "note_step t sub_technique n s =
     foldM (esn_step n t sub_technique) [0..<length (fst s)] s"

definition update_esn :: "esn list \<Rightarrow> raw_note list \<Rightarrow> string \<Rightarrow> real \<Rightarrow> error + esn list" where
  "update_esn expression_style_note note_with_expression_style technique sub_technique =
     (case foldM (note_step (tech_col technique) sub_technique) note_with_expression_style
             (expression_style_note, []) of
        Inl e \<Rightarrow> Inl e
      | Inr (esn', note_to_be_deleted) \<Rightarrow> Inr (np_delete esn' note_to_be_deleted))"

text \<open>
  The relation between a row before and after \<^verbatim>\<open>update_esn\<close> with technique column \<open>t\<close>:
  every column but the duration (column 2) and column \<open>t\<close> is the same.
\<close>

definition same_but :: "nat option \<Rightarrow> esn \<Rightarrow> esn \<Rightarrow> bool" where
  "same_but t r r' =
     (pitch r' = pitch r \<and> onset r' = onset r \<and>
      (t \<noteq> Some 3 \<longrightarrow> prebend r' = prebend r) \<and> (t \<noteq> Some 4 \<longrightarrow> bend r' = bend r) \<and>
      (t \<noteq> Some 5 \<longrightarrow> release r' = release r) \<and> (t \<noteq> Some 6 \<longrightarrow> pull r' = pull r) \<and>
      (t \<noteq> Some 7 \<longrightarrow> hamm r' = hamm r) \<and> (t \<noteq> Some 8 \<longrightarrow> slide r' = slide r) \<and>
      (t \<noteq> Some 9 \<longrightarrow> slide_in r' = slide_in r) \<and>
      (t \<noteq> Some 10 \<longrightarrow> slide_out r' = slide_out r) \<and>
      (t \<noteq> Some 11 \<longrightarrow> vibrato r' = vibrato r))"

text \<open>
  The table of the fusion example: rows spanning \<open>[0,1)\<close>, \<open>[1,2)\<close> and \<open>[3,4)\<close> with
  zero-initialised technique columns; the pitches are left open.
\<close>

definition mk_esn :: "real \<Rightarrow> real \<Rightarrow> real \<Rightarrow> esn" where
  "mk_esn p s d = esn_of_note \<lparr>pitch = p, onset = s, duration = d\<rparr>"

definition gap_esn :: "real \<Rightarrow> real \<Rightarrow> real \<Rightarrow> esn list" where
  "gap_esn p0 p1 p2 = [mk_esn p0 0 1, mk_esn p1 1 1, mk_esn p2 3 1]"

section \<open>\<^verbatim>\<open>WildVibrato.identify_serrated_pattern\<close>\<close>

text \<open>The slice assignment \<^verbatim>\<open>note[a:b,0] = 0\<close>.\<close>

definition zero_pitch :: "nat \<Rightarrow> nat \<Rightarrow> raw_note list \<Rightarrow> raw_note list" where
  "zero_pitch a b note =
     map (\<lambda>i. if a \<le> i \<and> i < b then (note ! i)\<lparr>pitch := 0\<rparr> else note ! i) [0..<length note]"

text \<open>
  The \<^verbatim>\<open>while\<close> loop that extends a run; its state is \<^verbatim>\<open>sign\<close> and \<^verbatim>\<open>offset_note\<close>.  The
  loop condition ends with \<^verbatim>\<open>offset_note+1<note.shape[0]-1\<close>, so the \<^verbatim>\<open>if\<close> of the loop body
  always takes its first branch.  Every index read is in range: the loop is entered
  only under \<^verbatim>\<open>offset_note+1<=note.shape[0]-1\<close>.
\<close>

function serrated_while :: "real \<Rightarrow> raw_note list \<Rightarrow> real \<Rightarrow> nat \<Rightarrow> nat" where
  "serrated_while extent note sign offset_note =
     (if \<bar>pitch (note ! (offset_note + 1)) - pitch (note ! offset_note)\<bar> = extent \<and>
         sgn (pitch (note ! (offset_note + 1)) - pitch (note ! offset_note)) \<noteq> sign \<and>
         onset (note ! (offset_note + 1))
           - (onset (note ! offset_note) + duration (note ! offset_note)) < 0.01 \<and>
         offset_note + 1 < length note - 1
      then serrated_while extent note
             (sgn (pitch (note ! (offset_note + 1)) - pitch (note ! offset_note)))
             (offset_note + 1)
      else offset_note)"
  by pat_completeness auto
termination
  by (relation "measure (\<lambda>(extent, note, sign, offset_note). length note - offset_note)") auto

declare serrated_while.simps [simp del]

text \<open>
  The body of \<^verbatim>\<open>for n in range(note.shape[0])\<close>; the state is the working copy \<^verbatim>\<open>note\<close>,
  \<^verbatim>\<open>merged_notes\<close> and \<^verbatim>\<open>wild_vibrato\<close>.  Inside the loop \<open>n < length note\<close>, so the
  source's \<^verbatim>\<open>n+1<=note.shape[0]-1\<close> over the integers is the same comparison over the
  naturals.
\<close>

definition serrated_body ::
  "real \<Rightarrow> nat \<Rightarrow> raw_note list \<times> raw_note list \<times> raw_note list
     \<Rightarrow> raw_note list \<times> raw_note list \<times> raw_note list"
where
  "serrated_body extent n s =
     (case s of (note, merged_notes, wild_vibrato) \<Rightarrow>
        if pitch (note ! n) \<noteq> 0 \<and> n + 1 \<le> length note - 1 then
          (if pitch (note ! (n + 1)) - pitch (note ! n) = extent \<and>
              onset (note ! (n + 1)) - (onset (note ! n) + duration (note ! n)) < 0.01
           then
             (let pitch' = pitch (note ! n);
                  pitch_next = pitch (note ! (n + 1));
                  onset_note = n;
                  sign = sgn (pitch_next - pitch');
                  offset_note =
                    (if (n + 1) + 1 \<le> length note - 1
                     then serrated_while extent note sign (n + 1) else n + 1);
                  num_notes = offset_note - onset_note + 1;
                  note' = zero_pitch onset_note (offset_note + 1) note
              in if num_notes \<ge> 5 then
                   (let onset_time = onset (note ! onset_note);
                        duration' = onset (note ! offset_note) + duration (note ! offset_note)
                                      - onset_time;
                        merged = \<lparr>pitch = pitch', onset = onset_time, duration = duration'\<rparr>
                    in (note', merged_notes @ [merged], wild_vibrato @ [merged]))
                 else
                   (note',
                    merged_notes @ take (offset_note + 1 - onset_note) (drop onset_note note),
                    wild_vibrato))
           else (note, merged_notes @ [note ! n], wild_vibrato))
        else if pitch (note ! n) \<noteq> 0 \<and> n + 1 > length note - 1 then
          (note, merged_notes @ [last note], wild_vibrato)
        else (note, merged_notes, wild_vibrato))"

definition identify_serrated_pattern ::
  "raw_note list \<Rightarrow> real \<Rightarrow> raw_note list \<times> raw_note list"
where
  "identify_serrated_pattern note_pseudo extent =
     snd (fold (serrated_body extent) [0..<length note_pseudo] (note_pseudo, [], []))"

text \<open>
  The two output lists after the first \<open>k\<close> iterations of the loop; after all of them they
  are the result of \<^verbatim>\<open>identify_serrated_pattern\<close>.
\<close>

definition serrated_scan :: "real \<Rightarrow> nat \<Rightarrow> raw_note list \<Rightarrow> raw_note list \<times> raw_note list" where
  "serrated_scan extent k note = snd (fold (serrated_body extent) [0..<k] (note, [], []))"

text \<open>
  An invariant of the loop, used in the proofs: before iteration \<open>n\<close> the working copy
  \<open>ys\<close> agrees with the input \<open>orig\<close> from some row \<open>z \<le> k\<close> on, and the rows from \<open>n\<close> up to
  \<open>z\<close> have been zeroed.
\<close>

definition untouched_from :: "nat \<Rightarrow> nat \<Rightarrow> raw_note list \<Rightarrow> raw_note list \<Rightarrow> bool" where
  "untouched_from k n orig ys =
     (length ys = length orig \<and>
      (\<exists>z \<le> k. (\<forall>i. z \<le> i \<and> i < length ys \<longrightarrow> ys ! i = orig ! i) \<and>
                (\<forall>i. n \<le> i \<and> i < z \<longrightarrow> pitch (ys ! i) = 0)))"

text \<open>A note row \<^verbatim>\<open>[pitch, onset, duration]\<close>, for the examples.\<close>

definition rn :: "real \<Rightarrow> real \<Rightarrow> real \<Rightarrow> raw_note" where
  "rn p s d = \<lparr>pitch = p, onset = s, duration = d\<rparr>"

section \<open>The ladder loop of \<^verbatim>\<open>LongSlide.detect\<close>\<close>

text \<open>
  \<^verbatim>\<open>LongSlide.detect\<close> first fills \<^verbatim>\<open>self.long_slide_sec\<close> from the notes that
  \<^verbatim>\<open>frame2note\<close> reconstructs from the quantised contour.  The loop is modelled over an
  arbitrary note array \<^verbatim>\<open>note\<close>, with the two duration bounds as parameters; a row of
  \<^verbatim>\<open>long_slide_sec\<close> is a pair (start, end).  The reads of \<^verbatim>\<open>note[offset_note+1]\<close> are in
  range: \<open>n\<close> stays below \<^verbatim>\<open>note.shape[0]-1\<close> and the loop goes on only under
  \<^verbatim>\<open>offset_note+2<note.shape[0]\<close>.
\<close>

function ladder_while :: "real \<Rightarrow> real \<Rightarrow> raw_note list \<Rightarrow> nat \<Rightarrow> nat" where
  "ladder_while min_transition_note_duration max_transition_note_duration note offset_note =
     (if pitch (note ! (offset_note + 1)) + 1 = pitch (note ! offset_note) \<and>
         duration (note ! (offset_note + 1)) \<ge> min_transition_note_duration \<and>
         duration (note ! (offset_note + 1)) \<le> max_transition_note_duration \<and>
         offset_note + 2 < length note
      then ladder_while min_transition_note_duration max_transition_note_duration note
             (offset_note + 1)
      else offset_note)"
  by pat_completeness auto
termination
  by (relation "measure (\<lambda>(mn, mx, note, offset_note). length note - offset_note)") auto

declare ladder_while.simps [simp del]

definition ladder_body ::
  "real \<Rightarrow> real \<Rightarrow> nat \<Rightarrow> raw_note list \<times> (real \<times> real) list
     \<Rightarrow> raw_note list \<times> (real \<times> real) list"
where
  "ladder_body min_transition_note_duration max_transition_note_duration n s =
     (case s of (note, long_slide_sec) \<Rightarrow>
        if pitch (note ! n) \<noteq> 0 then
          (let onset_note = n;
               offset_note =
                 ladder_while min_transition_note_duration max_transition_note_duration note n;
               step = offset_note - onset_note + 1;
               long_slide_sec' =
                 (if step \<ge> 5 then
                    long_slide_sec @
                      [(onset (note ! onset_note),
                        onset (note ! offset_note) + duration (note ! offset_note))]
                  else long_slide_sec)
           in (zero_pitch onset_note (offset_note + 1) note, long_slide_sec'))
        else (note, long_slide_sec))"

definition long_slide_sec ::
  "raw_note list \<Rightarrow> real \<Rightarrow> real \<Rightarrow> (real \<times> real) list"
where
  "long_slide_sec note min_transition_note_duration max_transition_note_duration =
     snd (fold (ladder_body min_transition_note_duration max_transition_note_duration)
            [0..<length note - 1] (note, []))"

section \<open>\<^verbatim>\<open>LongSlide.quantize\<close>\<close>

text \<open>
  Python list indexing: a negative index counts from the end, an index out of range
  raises \<^verbatim>\<open>IndexError\<close>.
\<close>

definition py_index :: "'a list \<Rightarrow> int \<Rightarrow> error + 'a" where
  "py_index xs i =
     (if 0 \<le> i \<and> i < int (length xs) then Inr (xs ! nat i)
      else if i < 0 \<and> - int (length xs) \<le> i then Inr (xs ! nat (int (length xs) + i))
      else Inl IndexError)"

fun mapM :: "('a \<Rightarrow> error + 'b) \<Rightarrow> 'a list \<Rightarrow> error + 'b list" where
  "mapM f [] = Inr []"
| "mapM f (x # xs) =
     (case f x of
        Inl e \<Rightarrow> Inl e
      | Inr y \<Rightarrow> (case mapM f xs of Inl e \<Rightarrow> Inl e | Inr ys \<Rightarrow> Inr (y # ys)))"

text \<open>
  \<^verbatim>\<open>while index < len(partitions) and datum >= partitions[index]-halfstep: index += 1\<close>
\<close>

function quantize_while :: "int list \<Rightarrow> real \<Rightarrow> real \<Rightarrow> nat \<Rightarrow> nat" where
  "quantize_while partitions halfstep datum index =
     (if index < length partitions \<and> datum \<ge> real_of_int (partitions ! index) - halfstep
      then quantize_while partitions halfstep datum (index + 1)
      else index)"
  by pat_completeness auto
termination
  by (relation "measure (\<lambda>(partitions, halfstep, datum, index). length partitions - index)") auto

declare quantize_while.simps [simp del]

text \<open>
  \<^verbatim>\<open>quantize\<close> returns \<^verbatim>\<open>quantised_data\<close> only; \<^verbatim>\<open>indices\<close> is computed and dropped.  The
  last line before the return sets the negative entries of \<^verbatim>\<open>quantised_data\<close> to 0.
\<close>

definition quantize :: "real list \<Rightarrow> int list \<Rightarrow> int list \<Rightarrow> error + int list" where
  "quantize data partitions codebook =
     (if length partitions < 2 then Inl IndexError
      else
        (let halfstep = real_of_int (partitions ! 1 - partitions ! 0) / 2 in
         case mapM (\<lambda>datum.
                 py_index codebook (int (quantize_while partitions halfstep datum 0) - 1)) data of
           Inl e \<Rightarrow> Inl e
         | Inr quantised_data \<Rightarrow> Inr (map (\<lambda>q. if q < 0 then 0 else q) quantised_data)))"

text \<open>The defaults \<^verbatim>\<open>partitions=range(0, 90, 1)\<close> and \<^verbatim>\<open>codebook=range(0, 91, 1)\<close>.\<close>

definition quantize_default :: "real list \<Rightarrow> error + int list" where
  "quantize_default data = quantize data (map int [0..<90]) (map int [0..<91])"

text \<open>
  The ladder pattern as a predicate on a list of notes: every note after the first is one
  quantisation step below the note before it and lasts between the two bounds.
\<close>

fun ladder :: "real \<Rightarrow> real \<Rightarrow> raw_note list \<Rightarrow> bool" where
  "ladder mn mx (a # b # xs) =
     (pitch b + 1 = pitch a \<and> mn \<le> duration b \<and> duration b \<le> mx \<and> ladder mn mx (b # xs))"
| "ladder mn mx [a] = True"
| "ladder mn mx [] = True"

text \<open>The rows of \<^verbatim>\<open>long_slide_sec\<close> after the first \<open>k\<close> iterations of the loop.\<close>

definition ladder_scan :: "real \<Rightarrow> real \<Rightarrow> nat \<Rightarrow> raw_note list \<Rightarrow> (real \<times> real) list" where
  "ladder_scan mn mx k note = snd (fold (ladder_body mn mx) [0..<k] (note, []))"

section \<open>\<^verbatim>\<open>SlowBend.long_CAD_pattern_detection\<close>\<close>

text \<open>
  A row of \<^verbatim>\<open>CAD_pattern\<close> is a pair (onset, offset).  The state of the loops is
  \<^verbatim>\<open>note_of_long_CAD\<close> and \<^verbatim>\<open>long_CAD_index\<close>; the list \<^verbatim>\<open>note_of_long_CAD_index\<close> only feeds
  \<^verbatim>\<open>note_of_short_CAD\<close>, which is not returned.
\<close>

text \<open>The body of \<^verbatim>\<open>for m in range(n+2,n+4)\<close>.\<close>

definition cad_m_body ::
  "raw_note list \<Rightarrow> nat \<Rightarrow> real \<times> real \<Rightarrow> nat \<Rightarrow> nat \<Rightarrow> raw_note list \<times> nat list
     \<Rightarrow> raw_note list \<times> nat list"
where
  "cad_m_body pseudo_note p pat n m s =
     (case s of (note_of_long_CAD, long_CAD_index) \<Rightarrow>
        (let offset_pattern = snd pat;
             onset_note = onset (pseudo_note ! m);
             offset_note = onset (pseudo_note ! m) + duration (pseudo_note ! m)
         in if offset_pattern \<ge> onset_note \<and> offset_pattern \<le> offset_note then
              (if m - n \<ge> 2 \<and> m - n \<le> 3 \<and>
                  \<bar>pitch (pseudo_note ! n) - pitch (pseudo_note ! m)\<bar> \<le> 3
               then
                 (note_of_long_CAD @
                    [\<lparr>pitch = pitch (pseudo_note ! n), onset = onset (pseudo_note ! n),
                      duration = duration (pseudo_note ! n) + duration (pseudo_note ! (n + 1))
                                   + duration (pseudo_note ! (n + 2))\<rparr>],
                  long_CAD_index @ [p])
               else (note_of_long_CAD, long_CAD_index))
            else (note_of_long_CAD, long_CAD_index)))"

text \<open>
  \<^verbatim>\<open>for n in range(pseudo_note.shape[0])\<close> from \<open>n\<close> on; \<^verbatim>\<open>if n+3>=pseudo_note.shape[0]: break\<close>
  ends it.
\<close>

function cad_note_loop ::
  "raw_note list \<Rightarrow> nat \<Rightarrow> real \<times> real \<Rightarrow> nat \<Rightarrow> raw_note list \<times> nat list
     \<Rightarrow> raw_note list \<times> nat list"
where
  "cad_note_loop pseudo_note p pat n s =
     (if n < length pseudo_note then
        (let onset_pattern = fst pat;
             onset_note = onset (pseudo_note ! n);
             offset_note = onset (pseudo_note ! n) + duration (pseudo_note ! n)
         in if onset_pattern \<ge> onset_note \<and> onset_pattern \<le> offset_note then
              (if n + 3 \<ge> length pseudo_note then s
               else cad_note_loop pseudo_note p pat (n + 1)
                      (fold (cad_m_body pseudo_note p pat n) [n + 2..<n + 4] s))
            else cad_note_loop pseudo_note p pat (n + 1) s)
      else s)"
  by pat_completeness auto
termination
  by (relation "measure (\<lambda>(pseudo_note, p, pat, n, s). length pseudo_note - n)") auto

declare cad_note_loop.simps [simp del]

definition long_CAD_pattern_detection ::
  "raw_note list \<Rightarrow> (real \<times> real) list \<Rightarrow> raw_note list \<times> (real \<times> real) list"
where
  "long_CAD_pattern_detection note CAD_pattern =
     (case fold (\<lambda>p. cad_note_loop note p (CAD_pattern ! p) 0) [0..<length CAD_pattern] ([], []) of
        (note_of_long_CAD, long_CAD_index) \<Rightarrow>
          (note_of_long_CAD, np_delete CAD_pattern long_CAD_index))"

text \<open>
  A time lies in the span of a note, both ends included, as the two comparisons of the
  source have it.
\<close>

definition in_span :: "real \<Rightarrow> raw_note \<Rightarrow> bool" where
  "in_span t r = (t \<ge> onset r \<and> t \<le> onset r + duration r)"

section \<open>Classifier-result fusion\<close>

text \<open>
  A row of the classifier result is \<^verbatim>\<open>[start, end, label]\<close>; the label is the class index
  the classifier predicted, an integer stored in the float array.
\<close>

record candidate =
  cand_start :: real
  cand_end :: real
  label :: int

subsection \<open>\<^verbatim>\<open>merge_and_update_prebend_bend_release\<close>\<close>



text \<open>The slice assignment \<^verbatim>\<open>result[a:b, 0:2] = 0\<close>.\<close>

definition zero_candidates :: "nat \<Rightarrow> nat \<Rightarrow> candidate list \<Rightarrow> candidate list" where
  "zero_candidates a b result =
     map (\<lambda>i. if a \<le> i \<and> i < b then (result ! i)\<lparr>cand_start := 0, cand_end := 0\<rparr>
               else result ! i) [0..<length result]"



text \<open>
  The body of \<^verbatim>\<open>for index_note, note in enumerate(expression_style_note[:-1])\<close>.
  \<^verbatim>\<open>candi_result\<close> and \<^verbatim>\<open>note\<close> are views of the arrays, so they are read from the current
  state.
\<close>

definition covers :: "candidate \<Rightarrow> esn list \<Rightarrow> nat \<Rightarrow> bool" where
  "covers candi_result expression_style_note index_note =
     (cand_start candi_result > onset (expression_style_note ! index_note) \<and>
      cand_start candi_result
        < onset (expression_style_note ! index_note) + duration (expression_style_note ! index_note) \<and>
      cand_end candi_result > onset (expression_style_note ! (index_note + 1)) \<and>
      cand_end candi_result
        < onset (expression_style_note ! (index_note + 1))
            + duration (expression_style_note ! (index_note + 1)))"




subsection \<open>\<^verbatim>\<open>update_pull_hamm_slide\<close>\<close>

text \<open>
  \<^verbatim>\<open>tech_index_dic\<close> maps a technique name to the classifier's label, an \<^verbatim>\<open>int\<close> in every
  dictionary \<^verbatim>\<open>main\<close> passes; it is modelled as an association list in the order
  \<^verbatim>\<open>iteritems()\<close> yields.  The branch for a value that is already a list is not modelled.
\<close>

definition index_list :: "(string \<times> int) list \<Rightarrow> string \<Rightarrow> int list" where
  "index_list tech_index_dic k = (case map_of tech_index_dic k of Some v \<Rightarrow> [v] | None \<Rightarrow> [])"

text \<open>The three branches on \<^verbatim>\<open>t\<close>, for the rows \<^verbatim>\<open>index_note\<close> and \<^verbatim>\<open>index_note+1\<close>.\<close>

definition mark :: "string \<Rightarrow> nat \<Rightarrow> esn list \<Rightarrow> esn list" where
  "mark t index_note e =
     (if t = ''pull'' then
        (if pull (e ! index_note) = 0 \<and> pull (e ! (index_note + 1)) = 0 then
           (e[index_note := (e ! index_note)\<lparr>pull := 1\<rparr>])
             [index_note + 1 := (e ! (index_note + 1))\<lparr>pull := 2\<rparr>]
         else if pull (e ! index_note) \<noteq> 0 \<and> pull (e ! (index_note + 1)) = 0 then
           e[index_note + 1 := (e ! (index_note + 1))\<lparr>pull := 2\<rparr>]
         else e)
      else if t = ''hamm'' then
        (if hamm (e ! index_note) = 0 \<and> hamm (e ! (index_note + 1)) = 0 then
           (e[index_note := (e ! index_note)\<lparr>hamm := 1\<rparr>])
             [index_note + 1 := (e ! (index_note + 1))\<lparr>hamm := 2\<rparr>]
         else if hamm (e ! index_note) \<noteq> 0 \<and> hamm (e ! (index_note + 1)) = 0 then
           e[index_note + 1 := (e ! (index_note + 1))\<lparr>hamm := 2\<rparr>]
         else e)
      else if t = ''slide'' then
        (e[index_note := (e ! index_note)\<lparr>slide := 1\<rparr>])
          [index_note + 1 := (e ! (index_note + 1))\<lparr>slide := 2\<rparr>]
      else e)"

text \<open>
  The body of the loop over the notes: \<^verbatim>\<open>t\<close> is the first key of the dictionary whose value
  is the candidate's label; \<^verbatim>\<open>[...][0]\<close> on an empty list raises.
\<close>

definition phs_note_body ::
  "(string \<times> int) list \<Rightarrow> candidate \<Rightarrow> nat \<Rightarrow> esn list \<Rightarrow> error + esn list"
where
  "phs_note_body tech_index_dic candi_result index_note expression_style_note =
     (if covers candi_result expression_style_note index_note then
        (case map fst (filter (\<lambda>kv. snd kv = label candi_result) tech_index_dic) of
           [] \<Rightarrow> Inl IndexError
         | t # _ \<Rightarrow> Inr (mark t index_note expression_style_note))
      else Inr expression_style_note)"

definition phs_candi_body ::
  "(string \<times> int) list \<Rightarrow> candidate \<Rightarrow> esn list \<Rightarrow> error + esn list"
where
  "phs_candi_body tech_index_dic candi_result expression_style_note =
     (let target_tech_index_list =
            index_list tech_index_dic ''pull'' @ index_list tech_index_dic ''hamm''
              @ index_list tech_index_dic ''slide''
      in if label candi_result \<in> set target_tech_index_list \<and> cand_start candi_result \<noteq> 0
         then foldM (phs_note_body tech_index_dic candi_result)
                [0..<length expression_style_note - 1] expression_style_note
         else Inr expression_style_note)"

definition update_pull_hamm_slide ::
  "esn list \<Rightarrow> candidate list \<Rightarrow> (string \<times> int) list \<Rightarrow> error + esn list"
where
  "update_pull_hamm_slide expression_style_note result_ref tech_index_dic =
     foldM (phs_candi_body tech_index_dic) result_ref expression_style_note"

text \<open>The dictionary \<^verbatim>\<open>main\<close> builds for a single classifier model.\<close>

definition tech_index_dic_single :: "(string \<times> int) list" where
  "tech_index_dic_single =
     [(''bend'', 0), (''hamm'', 1), (''normal'', 2), (''pull'', 3), (''slide'', 4)]"

text \<open>
  The value a variable holds after it has been assigned each element of a list in turn,
  starting from \<open>d\<close>.
\<close>

definition last_of :: "real list \<Rightarrow> real \<Rightarrow> real" where
  "last_of xs d = (if xs = [] then d else last xs)"

section \<open>Properties of \<^verbatim>\<open>update_esn\<close>\<close>

lemma np_delete_Nil: "np_delete arr [] = arr"
  by (simp add: np_delete_def map_nth)

lemma foldM_append:
  "foldM f (xs @ ys) s = (case foldM f xs s of Inl e \<Rightarrow> Inl e | Inr s' \<Rightarrow> foldM f ys s')"
  by (induction xs arbitrary: s) (auto split: sum.splits)

lemma foldM_id:
  assumes "\<And>x. x \<in> set xs \<Longrightarrow> f x s = Inr s"
  shows "foldM f xs s = Inr s"
  using assms by (induction xs) auto

lemma esn_step_no_match:
  assumes "onset n \<noteq> onset (e ! r)"
  shows "esn_step n t sub (r) (e, d) = Inr (e, d)"
  using assms by (simp add: esn_step_def)

lemma note_step_no_match:
  assumes "\<forall>r \<in> set e. onset n \<noteq> onset r"
  shows "note_step t sub n (e, d) = Inr (e, d)"
  unfolding note_step_def
  by (rule foldM_id) (use assms in \<open>auto intro!: esn_step_no_match\<close>)

lemma update_esn_unmatched:
  assumes "\<forall>n \<in> set detected. \<forall>r \<in> set e. onset n \<noteq> onset r"
  shows "update_esn e detected technique sub = Inr e"
proof -
  have "foldM (note_step (tech_col technique) sub) detected (e, []) = Inr (e, [])"
    by (rule foldM_id) (use assms in \<open>auto intro!: note_step_no_match\<close>)
  then show ?thesis
    by (simp add: update_esn_def np_delete_Nil)
qed

lemma same_but_refl: "same_but t r r"
  by (simp add: same_but_def)

lemma same_but_trans: "same_but t a b \<Longrightarrow> same_but t b c \<Longrightarrow> same_but t a c"
  by (simp add: same_but_def)

lemma tech_col_range: "tech_col technique = Some c \<Longrightarrow> c \<in> {3, 4, 5, 6, 7, 8, 9, 10, 11}"
  by (auto simp: tech_col_def split: if_splits)

lemma esn_set_same_but:
  assumes "tech_col technique = Some c" "esn_set c v (r\<lparr>duration := d\<rparr>) = Inr r'"
  shows "same_but (Some c) r r'"
proof -
  have "c = 3 \<or> c = 4 \<or> c = 5 \<or> c = 6 \<or> c = 7 \<or> c = 8 \<or> c = 9 \<or> c = 10 \<or> c = 11"
    using tech_col_range[OF assms(1)] by simp
  then show ?thesis
    using assms(2) by (elim disjE) (auto simp: esn_set_def same_but_def)
qed

lemma tag_frame:
  assumes "tag (tech_col technique) dur sub r e = Inr e'"
  shows "list_all2 (same_but (tech_col technique)) e e'"
proof (cases "tech_col technique")
  case None
  with assms show ?thesis by (simp add: tag_def)
next
  case (Some c)
  with assms obtain row where row: "esn_set c sub ((e ! r)\<lparr>duration := dur\<rparr>) = Inr row"
    and e': "e' = e[r := row]"
    by (auto simp: tag_def split: sum.splits)
  have sb: "same_but (tech_col technique) (e ! r) row"
    using esn_set_same_but[OF Some row] Some by simp
  show ?thesis
    unfolding e' list_all2_conv_all_nth
  proof (intro conjI allI impI)
    fix i assume "i < length e"
    then show "same_but (tech_col technique) (e ! i) (e[r := row] ! i)"
      using sb by (cases "i = r") (simp_all add: same_but_refl)
  qed simp
qed


lemma walk_frame:
  assumes "walk n t sub r_esn r e d = Inr (e', d')"
    and tg: "\<And>e1. tag t (duration n) sub r_esn e = Inr e1 \<Longrightarrow> list_all2 (same_but t) e e1"
  shows "list_all2 (same_but t) e e'"
  using assms
proof (induction n t sub r_esn r e d rule: walk.induct)
  case (1 n t sub r_esn r e d)
  note w = walk.simps[of n t sub r_esn r e d]
  show ?case
  proof (cases "r < length e")
    case False
    with "1.prems"(1) have "e' = e" by (simp add: w)
    then show ?thesis by (simp add: list_all2_conv_all_nth same_but_refl)
  next
    case True
    show ?thesis
    proof (cases "onset (e ! r) + duration (e ! r) \<ge> onset n + duration n")
      case stop: True
      with True "1.prems"(1) have "tag t (duration n) sub r_esn e = Inr e'"
        by (auto simp: w Let_def split: if_splits sum.splits)
      then show ?thesis by (rule "1.prems"(2))
    next
      case False
      with True "1.prems"(1) have "walk n t sub r_esn (r + 1) e (d @ [r]) = Inr (e', d')"
        by (simp add: w Let_def)
      with "1.IH" True False "1.prems"(2) show ?thesis by (simp add: Let_def)
    qed
  qed
qed

lemma list_all2_same_but_refl: "list_all2 (same_but t) e e"
  by (simp add: list_all2_conv_all_nth same_but_refl)

lemma list_all2_same_but_trans:
  "list_all2 (same_but t) a b \<Longrightarrow> list_all2 (same_but t) b c \<Longrightarrow> list_all2 (same_but t) a c"
  by (rule list_all2_trans[OF same_but_trans])

lemma esn_step_frame:
  assumes "esn_step n (tech_col technique) sub r (e, d) = Inr (e', d')"
  shows "list_all2 (same_but (tech_col technique)) e e'"
proof (cases "onset n = onset (e ! r)")
  case False
  with assms have "e' = e" by (simp add: esn_step_def)
  then show ?thesis by (simp add: list_all2_same_but_refl)
next
  case True
  show ?thesis
  proof (cases "duration (e ! r) \<ge> duration n")
    case ge: True
    with True assms have "tag (tech_col technique) (duration n) sub r e = Inr e'"
      by (auto simp: esn_step_def split: sum.splits)
    then show ?thesis by (rule tag_frame)
  next
    case False
    with True assms have "walk n (tech_col technique) sub r (r + 1) e d = Inr (e', d')"
      by (simp add: esn_step_def)
    then show ?thesis by (rule walk_frame) (rule tag_frame)
  qed
qed

lemma foldM_esn_step_frame:
  assumes "foldM (esn_step n (tech_col technique) sub) rs (e, d) = Inr (e', d')"
  shows "list_all2 (same_but (tech_col technique)) e e'"
  using assms
proof (induction rs arbitrary: e d)
  case Nil
  then show ?case by (simp add: list_all2_same_but_refl)
next
  case (Cons r rs)
  then obtain e1 d1 where s: "esn_step n (tech_col technique) sub r (e, d) = Inr (e1, d1)"
    and f: "foldM (esn_step n (tech_col technique) sub) rs (e1, d1) = Inr (e', d')"
    by (auto split: sum.splits)
  from esn_step_frame[OF s] Cons.IH[OF f] show ?case
    by (rule list_all2_same_but_trans)
qed

lemma note_step_frame:
  assumes "note_step (tech_col technique) sub n (e, d) = Inr (e', d')"
  shows "list_all2 (same_but (tech_col technique)) e e'"
  using assms foldM_esn_step_frame by (simp add: note_step_def)

lemma foldM_note_step_frame:
  assumes "foldM (note_step (tech_col technique) sub) ns (e, d) = Inr (e', d')"
  shows "list_all2 (same_but (tech_col technique)) e e'"
  using assms
proof (induction ns arbitrary: e d)
  case Nil
  then show ?case by (simp add: list_all2_same_but_refl)
next
  case (Cons n ns)
  then obtain e1 d1 where s: "note_step (tech_col technique) sub n (e, d) = Inr (e1, d1)"
    and f: "foldM (note_step (tech_col technique) sub) ns (e1, d1) = Inr (e', d')"
    by (auto split: sum.splits)
  from note_step_frame[OF s] Cons.IH[OF f] show ?case
    by (rule list_all2_same_but_trans)
qed

lemma subseq_np_delete: "subseq (np_delete arr obj) arr"
proof -
  have "subseq (map (\<lambda>i. arr ! i) (filter (\<lambda>i. i \<notin> set obj) [0..<length arr]))
          (map (\<lambda>i. arr ! i) [0..<length arr])"
    by (rule subseq_map) simp
  then show ?thesis by (simp add: np_delete_def map_nth)
qed

lemma same_but_onset: "list_all2 (same_but t) e e' \<Longrightarrow> map onset e' = map onset e"
  by (induction e e' rule: list_all2_induct) (simp_all add: same_but_def)

lemma note_step_unmatched_frame:
  assumes "list_all2 (same_but t) e0 e" "\<forall>r \<in> set e0. onset n \<noteq> onset r"
  shows "note_step t sub n (e, d) = Inr (e, d)"
proof -
  have "onset ` set e = onset ` set e0"
    using same_but_onset[OF assms(1)] by (metis set_map)
  with assms(2) have "\<forall>r \<in> set e. onset n \<noteq> onset r" by (metis imageE imageI)
  then show ?thesis by (rule note_step_no_match)
qed

lemma foldM_note_step_filter:
  assumes "list_all2 (same_but (tech_col technique)) e0 e"
  shows "foldM (note_step (tech_col technique) sub) detected (e, d) =
         foldM (note_step (tech_col technique) sub)
           (filter (\<lambda>n. \<exists>r \<in> set e0. onset r = onset n) detected) (e, d)"
  using assms
proof (induction detected arbitrary: e d)
  case Nil
  then show ?case by simp
next
  case (Cons n ns)
  show ?case
  proof (cases "\<exists>r \<in> set e0. onset r = onset n")
    case False
    then have "\<forall>r \<in> set e0. onset n \<noteq> onset r" by metis
    then have "note_step (tech_col technique) sub n (e, d) = Inr (e, d)"
      by (rule note_step_unmatched_frame[OF Cons.prems])
    with False Cons.IH[OF Cons.prems] show ?thesis by simp
  next
    case True
    show ?thesis
    proof (cases "note_step (tech_col technique) sub n (e, d)")
      case (Inl x)
      with True show ?thesis by simp
    next
      case (Inr s1)
      obtain e1 d1 where s1: "s1 = (e1, d1)" by (cases s1)
      have "list_all2 (same_but (tech_col technique)) e e1"
        using note_step_frame Inr s1 by blast
      with Cons.prems have "list_all2 (same_but (tech_col technique)) e0 e1"
        by (rule list_all2_same_but_trans)
      from Cons.IH[OF this] True Inr s1 show ?thesis by simp
    qed
  qed
qed

text \<open>
  C8: a detected note whose onset equals no row's onset is dropped without any effect:
  \<^verbatim>\<open>update_esn\<close> gives the same result with and without it.  When no detected note
  shares its onset with a row, \<^verbatim>\<open>update_esn\<close> returns the table as it was and raises
  nothing; this holds for every technique string, also one that leaves \<^verbatim>\<open>t\<close> unbound,
  since \<^verbatim>\<open>t\<close> is then never used.
\<close>

theorem update_esn_no_match:
  "update_esn e detected technique sub =
     update_esn e (filter (\<lambda>n. \<exists>r \<in> set e. onset r = onset n) detected) technique sub \<and>
   ((\<forall>n \<in> set detected. \<forall>r \<in> set e. onset n \<noteq> onset r) \<longrightarrow>
      update_esn e detected technique sub = Inr e)"
proof
  have "list_all2 (same_but (tech_col technique)) e e"
    by (rule list_all2_same_but_refl)
  then show "update_esn e detected technique sub =
     update_esn e (filter (\<lambda>n. \<exists>r \<in> set e. onset r = onset n) detected) technique sub"
    unfolding update_esn_def by (simp add: foldM_note_step_filter[symmetric])
next
  show "(\<forall>n \<in> set detected. \<forall>r \<in> set e. onset n \<noteq> onset r) \<longrightarrow>
      update_esn e detected technique sub = Inr e"
    using update_esn_unmatched by blast
qed

theorem update_esn_no_match_witness:
  "update_esn (gap_esn 60 62 64)
     [\<lparr>pitch = 60, onset = 0, duration = 5/2\<rparr>, \<lparr>pitch = 60, onset = 2, duration = 1\<rparr>] ''bend'' 3
   = update_esn (gap_esn 60 62 64) [\<lparr>pitch = 60, onset = 0, duration = 5/2\<rparr>] ''bend'' 3 \<and>
   update_esn (gap_esn 60 62 64) [\<lparr>pitch = 60, onset = 2, duration = 1\<rparr>] ''bend'' 3
   = Inr (gap_esn 60 62 64)"
proof
  let ?n1 = "\<lparr>pitch = 60, onset = 0, duration = 5/2\<rparr>"
  let ?n2 = "\<lparr>pitch = 60, onset = 2, duration = 1\<rparr>"
  have f: "filter (\<lambda>n. \<exists>r \<in> set (gap_esn 60 62 64). onset r = onset n) [?n1, ?n2] = [?n1]"
    by (simp add: gap_esn_def mk_esn_def esn_of_note_def)
  show "update_esn (gap_esn 60 62 64) [?n1, ?n2] ''bend'' 3
          = update_esn (gap_esn 60 62 64) [?n1] ''bend'' 3"
    using conjunct1[OF update_esn_no_match[of "gap_esn 60 62 64" "[?n1, ?n2]" "''bend''" 3]]
    unfolding f .
  have h: "\<forall>n \<in> set [?n2]. \<forall>r \<in> set (gap_esn 60 62 64). onset n \<noteq> onset r"
    by (simp add: gap_esn_def mk_esn_def esn_of_note_def)
  show "update_esn (gap_esn 60 62 64) [?n2] ''bend'' 3 = Inr (gap_esn 60 62 64)"
    by (rule mp[OF conjunct2[OF update_esn_no_match] h])
qed

text \<open>
  C2 (as amended): on the table with rows spanning \<open>[0,1)\<close>, \<open>[1,2)\<close> and \<open>[3,4)\<close> and the
  single detected note spanning \<open>[0.5, 3.5)\<close>, \<^verbatim>\<open>update_esn\<close> returns the table unchanged,
  whatever the pitches, the technique and the magnitude: no row has the onset 0.5, so no
  row is retagged or shrunk, and the row spanning \<open>[3,4)\<close> is neither deleted nor merged.
\<close>

theorem fusion_gap_example_unchanged:
  "update_esn (gap_esn p0 p1 p2) [\<lparr>pitch = p, onset = 1/2, duration = 3\<rparr>] technique sub
     = Inr (gap_esn p0 p1 p2)"
  by (rule update_esn_unmatched) (simp add: gap_esn_def mk_esn_def esn_of_note_def)

text \<open>
  The claim as it was stated fails: after the fusion no row of the table ends at 3.5
  (and none carries the tag).
\<close>

theorem fusion_gap_example_counterexample:
  "\<not> (\<exists>out. update_esn (gap_esn 60 62 64) [\<lparr>pitch = 60, onset = 1/2, duration = 3\<rparr>]
               ''vibrato'' 2 = Inr out \<and>
             (\<exists>r \<in> set out. onset r + duration r = 7/2 \<or> vibrato r \<noteq> 0))"
proof -
  have "update_esn (gap_esn 60 62 64) [\<lparr>pitch = 60, onset = 1/2, duration = 3\<rparr>] ''vibrato'' 2
          = Inr (gap_esn 60 62 64)"
    by (rule update_esn_unmatched) (simp add: gap_esn_def mk_esn_def esn_of_note_def)
  then show ?thesis
    by (simp add: gap_esn_def mk_esn_def esn_of_note_def)
qed

text \<open>
  C10: whenever \<^verbatim>\<open>update_esn\<close> returns a table, that table has at most as many rows as the
  input, and its rows are, in their order, rows of the input in which at most the duration
  (column 2) and the column of the given technique differ: pitch, onset and every other
  technique column are the input's.  (\<open>e'\<close> is the input table after the in-place
  assignments; the output is \<open>e'\<close> with the deleted rows left out.)
\<close>

theorem update_esn_frame:
  assumes "update_esn e detected technique sub = Inr out"
  shows "length out \<le> length e \<and>
         (\<exists>e'. list_all2 (same_but (tech_col technique)) e e' \<and> subseq out e')"
proof -
  from assms obtain e' d where f: "foldM (note_step (tech_col technique) sub) detected (e, []) = Inr (e', d)"
    and out: "out = np_delete e' d"
    by (auto simp: update_esn_def split: sum.splits)
  have fr: "list_all2 (same_but (tech_col technique)) e e'"
    by (rule foldM_note_step_frame[OF f])
  have ss: "subseq out e'" unfolding out by (rule subseq_np_delete)
  have "length out \<le> length e'" using ss by (rule list_emb_length)
  also have "length e' = length e" using fr by (simp add: list_all2_lengthD)
  finally show ?thesis using fr ss by blast
qed



theorem update_esn_frame_witness:
  "length [(mk_esn 60 0 (5/2))\<lparr>vibrato := 2\<rparr>, mk_esn 64 3 1] \<le> length (gap_esn 60 62 64) \<and>
   (\<exists>e'. list_all2 (same_but (tech_col ''vibrato'')) (gap_esn 60 62 64) e' \<and>
         subseq [(mk_esn 60 0 (5/2))\<lparr>vibrato := 2\<rparr>, mk_esn 64 3 1] e')"
proof -
  have "update_esn (gap_esn 60 62 64) [\<lparr>pitch = 60, onset = 0, duration = 5/2\<rparr>] ''vibrato'' 2
          = Inr [(mk_esn 60 0 (5/2))\<lparr>vibrato := 2\<rparr>, mk_esn 64 3 1]"
    by (simp add: update_esn_def note_step_def esn_step_def walk.simps tag_def esn_set_def
        tech_col_def gap_esn_def mk_esn_def esn_of_note_def np_delete_def upt_conv_Cons)
  then show ?thesis by (rule update_esn_frame)
qed

lemma tag_ok:
  assumes "tech_col technique = Some c"
  shows "\<exists>row. esn_set c sub ((e ! r)\<lparr>duration := dur\<rparr>) = Inr row \<and>
           tag (Some c) dur sub r e = Inr (e[r := row]) \<and>
           duration row = dur \<and> esn_get c row = sub \<and> same_but (Some c) (e ! r) row"
proof -
  have "c = 3 \<or> c = 4 \<or> c = 5 \<or> c = 6 \<or> c = 7 \<or> c = 8 \<or> c = 9 \<or> c = 10 \<or> c = 11"
    using tech_col_range[OF assms] by simp
  then show ?thesis
    by (elim disjE) (simp_all add: esn_set_def tag_def esn_get_def same_but_def)
qed

lemma walk_stop:
  assumes "r \<le> j" "j < length e"
    and "\<forall>k. r \<le> k \<and> k < j \<longrightarrow> onset (e ! k) + duration (e ! k) < onset n + duration n"
    and "onset (e ! j) + duration (e ! j) \<ge> onset n + duration n"
  shows "walk n t sub i r e d =
           (case tag t (duration n) sub i e of
              Inl x \<Rightarrow> Inl x
            | Inr e' \<Rightarrow>
                Inr (e', d @ [r..<j] @ (if onset (e ! j) > onset n + duration n then [] else [j])))"
  using assms
proof (induction "j - r" arbitrary: r d)
  case 0
  then have "r = j" by simp
  with "0.prems" show ?case
    by (simp add: walk.simps[of n t sub i j e d] Let_def split: sum.splits)
next
  case (Suc m)
  then have lt: "r < j" by simp
  with Suc.prems have small: "onset (e ! r) + duration (e ! r) < onset n + duration n"
    by simp
  have step: "walk n t sub i r e d = walk n t sub i (r + 1) e (d @ [r])"
    using lt Suc.prems(2) small by (simp add: walk.simps[of n t sub i r e d] Let_def)
  have rec: "walk n t sub i (r + 1) e (d @ [r]) = (case tag t (duration n) sub i e of
              Inl x \<Rightarrow> Inl x
            | Inr e' \<Rightarrow>
                Inr (e', (d @ [r]) @ [r + 1..<j] @ (if onset (e ! j) > onset n + duration n then [] else [j])))"
    using Suc.hyps(2) lt Suc.prems by (intro Suc.hyps(1)) auto
  have app: "(d @ [r]) @ [r + 1..<j] @ xs = d @ [r..<j] @ xs" for xs
    using lt by (simp add: upt_conv_Cons)
  show ?case unfolding step rec app ..
qed


lemma note_step_length:
  assumes "note_step (tech_col technique) sub n (e, d) = Inr (e', d')"
  shows "length e' = length e"
  using note_step_frame[OF assms] by (simp add: list_all2_lengthD)

lemma foldM_note_step_loops:
  "foldM (note_step (tech_col technique) sub) ns (e, d) =
     foldM (\<lambda>n. foldM (esn_step n (tech_col technique) sub) [0..<length e]) ns (e, d)"
proof (induction ns arbitrary: e d)
  case Nil
  show ?case by simp
next
  case (Cons n ns)
  have first: "note_step (tech_col technique) sub n (e, d) =
                 foldM (esn_step n (tech_col technique) sub) [0..<length e] (e, d)"
    by (simp add: note_step_def)
  show ?case
  proof (cases "note_step (tech_col technique) sub n (e, d)")
    case (Inl err)
    then show ?thesis using first by simp
  next
    case (Inr s)
    obtain e1 d1 where s: "s = (e1, d1)" by (cases s)
    have len: "length e1 = length e" using note_step_length Inr s by blast
    show ?thesis
      using Inr first Cons.IH[of e1 d1] unfolding s len by simp
  qed
qed

lemma esn_step_walk_row:
  assumes tech: "tech_col technique = Some c"
    and ij: "i < j" "j < length e"
    and match: "onset (e ! i) = onset n"
    and short: "duration (e ! i) < duration n"
    and before: "\<forall>k. i < k \<and> k < j \<longrightarrow> onset (e ! k) + duration (e ! k) < onset n + duration n"
    and stop: "onset (e ! j) + duration (e ! j) \<ge> onset n + duration n"
  shows "\<exists>row. esn_set c sub ((e ! i)\<lparr>duration := duration n\<rparr>) = Inr row \<and>
           esn_step n (Some c) sub i (e, d) =
             Inr (e[i := row],
                  d @ [i + 1..<j] @ (if onset (e ! j) > onset n + duration n then [] else [j]))"
proof -
  from tag_ok[OF tech, where e = e and r = i and dur = "duration n" and sub = sub] obtain row where
    row: "esn_set c sub ((e ! i)\<lparr>duration := duration n\<rparr>) = Inr row"
      "tag (Some c) (duration n) sub i e = Inr (e[i := row])"
    by blast
  have "esn_step n (Some c) sub i (e, d) = walk n (Some c) sub i (i + 1) e d"
    using match short by (simp add: esn_step_def)
  also have "\<dots> = (case tag (Some c) (duration n) sub i e of
              Inl x \<Rightarrow> Inl x
            | Inr e' \<Rightarrow>
                Inr (e', d @ [i + 1..<j] @ (if onset (e ! j) > onset n + duration n then [] else [j])))"
    using ij before stop by (intro walk_stop) auto
  finally show ?thesis using row by auto
qed

text \<open>
  C1 (as amended): let the onset of a detected note \<open>n\<close> equal the onset of row \<open>i\<close> of the
  table, in whatever state \<open>(e, marked)\<close> the scan has reached, let row \<open>i\<close> be strictly
  shorter than \<open>n\<close>, and let \<open>j\<close> be the first row after \<open>i\<close> whose end reaches or passes the
  end of \<open>n\<close>.  Then the forward walk stops at \<open>j\<close>: it marks the rows strictly between \<open>i\<close>
  and \<open>j\<close> for deletion, it marks row \<open>j\<close> unless the onset of \<open>j\<close> lies strictly beyond the end
  of \<open>n\<close>, and in both cases row \<open>i\<close> gets the detected duration and the magnitude in the
  technique's column.  No row is removed during the scan: every detection is matched
  against all rows of the table, and the result is the final table without the rows that
  any walk has marked, removed in one batch.  A stopping row that its own walk spares can
  therefore still be removed, when the walk of another detection marks it.
\<close>

theorem update_esn_walk:
  assumes tech: "tech_col technique = Some c"
    and ij: "i < j" "j < length e"
    and match: "onset (e ! i) = onset n"
    and short: "duration (e ! i) < duration n"
    and before: "\<forall>k. i < k \<and> k < j \<longrightarrow> onset (e ! k) + duration (e ! k) < onset n + duration n"
    and stop: "onset (e ! j) + duration (e ! j) \<ge> onset n + duration n"
  shows "(\<exists>row. esn_set c sub ((e ! i)\<lparr>duration := duration n\<rparr>) = Inr row \<and>
            esn_step n (tech_col technique) sub i (e, marked) =
              Inr (e[i := row],
                   marked @ [i + 1..<j] @
                     (if onset (e ! j) > onset n + duration n then [] else [j]))) \<and>
         update_esn table ns technique sub =
           (case foldM (\<lambda>d. foldM (esn_step d (tech_col technique) sub) [0..<length table]) ns
                   (table, []) of
              Inl err \<Rightarrow> Inl err
            | Inr (e', marked') \<Rightarrow>
                Inr (map (\<lambda>k. e' ! k) (filter (\<lambda>k. k \<notin> set marked') [0..<length table])))"
proof (rule conjI)
  show "\<exists>row. esn_set c sub ((e ! i)\<lparr>duration := duration n\<rparr>) = Inr row \<and>
          esn_step n (tech_col technique) sub i (e, marked) =
            Inr (e[i := row],
                 marked @ [i + 1..<j] @
                   (if onset (e ! j) > onset n + duration n then [] else [j]))"
    unfolding tech by (rule esn_step_walk_row[OF tech ij match short before stop])
next
  let ?loops = "foldM (\<lambda>d. foldM (esn_step d (tech_col technique) sub) [0..<length table]) ns
                  (table, [])"
  have eq: "foldM (note_step (tech_col technique) sub) ns (table, []) = ?loops"
    by (rule foldM_note_step_loops)
  show "update_esn table ns technique sub =
          (case ?loops of
             Inl err \<Rightarrow> Inl err
           | Inr (e', marked') \<Rightarrow>
               Inr (map (\<lambda>k. e' ! k) (filter (\<lambda>k. k \<notin> set marked') [0..<length table])))"
  proof (cases ?loops)
    case (Inl err)
    then show ?thesis unfolding update_esn_def eq by simp
  next
    case (Inr s)
    obtain e' m' where s: "s = (e', m')" by (cases s)
    have "list_all2 (same_but (tech_col technique)) table e'"
      using foldM_note_step_frame[of technique sub ns table "[]" e' m'] Inr eq s by simp
    then have len: "length e' = length table" by (simp add: list_all2_lengthD)
    show ?thesis
      unfolding update_esn_def eq Inr s using len by (simp add: np_delete_def)
  qed
qed

text \<open>
  The claim as it was stated fails when a second detection follows: the walk of the first
  detection stops at the row with onset 3, which lies strictly beyond its end 2.5 and is
  not marked by it; the walk of the second detection marks that row, and the batch deletion
  removes it.
\<close>

theorem update_esn_walk_counterexample:
  "onset ([mk_esn 60 0 1, mk_esn 62 1 1, mk_esn 64 3 1, mk_esn 65 4 1] ! 0) = 0 \<and>
   duration ([mk_esn 60 0 1, mk_esn 62 1 1, mk_esn 64 3 1, mk_esn 65 4 1] ! 0) < 5/2 \<and>
   onset (mk_esn 62 1 1) + duration (mk_esn 62 1 1) < 0 + 5/2 \<and>
   onset (mk_esn 64 3 1) + duration (mk_esn 64 3 1) \<ge> 0 + 5/2 \<and>
   onset (mk_esn 64 3 1) > 0 + 5/2 \<and>
   update_esn [mk_esn 60 0 1, mk_esn 62 1 1, mk_esn 64 3 1, mk_esn 65 4 1]
     [\<lparr>pitch = 60, onset = 0, duration = 5/2\<rparr>, \<lparr>pitch = 62, onset = 1, duration = 7/2\<rparr>]
     ''bend'' 1 =
   Inr [(mk_esn 60 0 1)\<lparr>duration := 5/2, bend := 1\<rparr>]"
  by (simp add: update_esn_def note_step_def esn_step_def walk.simps tag_def esn_set_def
      tech_col_def np_delete_def mk_esn_def esn_of_note_def upt_conv_Cons)

theorem update_esn_walk_witness:
  "tech_col ''bend'' = Some 4 \<and>
   onset ([(mk_esn 60 0 1)\<lparr>duration := 5/2, bend := 1\<rparr>, mk_esn 62 1 1, mk_esn 64 3 1,
           mk_esn 65 4 1] ! 1) = 1 \<and>
   duration ([(mk_esn 60 0 1)\<lparr>duration := 5/2, bend := 1\<rparr>, mk_esn 62 1 1, mk_esn 64 3 1,
              mk_esn 65 4 1] ! 1) < 7/2 \<and>
   onset (mk_esn 64 3 1) + duration (mk_esn 64 3 1) < 1 + 7/2 \<and>
   onset (mk_esn 65 4 1) + duration (mk_esn 65 4 1) \<ge> 1 + 7/2 \<and>
   \<not> onset (mk_esn 65 4 1) > 1 + 7/2 \<and>
   esn_step \<lparr>pitch = 62, onset = 1, duration = 7/2\<rparr> (tech_col ''bend'') 1 1
     ([(mk_esn 60 0 1)\<lparr>duration := 5/2, bend := 1\<rparr>, mk_esn 62 1 1, mk_esn 64 3 1,
       mk_esn 65 4 1], [1]) =
   Inr ([(mk_esn 60 0 1)\<lparr>duration := 5/2, bend := 1\<rparr>,
         (mk_esn 62 1 1)\<lparr>duration := 7/2, bend := 1\<rparr>, mk_esn 64 3 1, mk_esn 65 4 1],
        [1, 2, 3]) \<and>
   update_esn [mk_esn 60 0 1, mk_esn 62 1 1, mk_esn 64 3 1, mk_esn 65 4 1]
     [\<lparr>pitch = 60, onset = 0, duration = 5/2\<rparr>, \<lparr>pitch = 62, onset = 1, duration = 7/2\<rparr>]
     ''bend'' 1 =
   Inr [(mk_esn 60 0 1)\<lparr>duration := 5/2, bend := 1\<rparr>]"
proof -
  let ?e = "[(mk_esn 60 0 1)\<lparr>duration := 5/2, bend := 1\<rparr>, mk_esn 62 1 1, mk_esn 64 3 1,
             mk_esn 65 4 1]"
  let ?n = "\<lparr>pitch = 62, onset = 1, duration = 7/2\<rparr>"
  have 1: "tech_col ''bend'' = Some 4" by (simp add: tech_col_def)
  have 2: "(1::nat) < 3" "3 < length ?e" by simp_all
  have 3: "onset (?e ! 1) = onset ?n" by (simp add: mk_esn_def esn_of_note_def)
  have 4: "duration (?e ! 1) < duration ?n" by (simp add: mk_esn_def esn_of_note_def)
  have 5: "\<forall>k. 1 < k \<and> k < 3 \<longrightarrow> onset (?e ! k) + duration (?e ! k) < onset ?n + duration ?n"
  proof (intro allI impI)
    fix k :: nat assume "1 < k \<and> k < 3"
    then have "k = 2" by simp
    then show "onset (?e ! k) + duration (?e ! k) < onset ?n + duration ?n"
      by (simp add: mk_esn_def esn_of_note_def)
  qed
  have 6: "onset (?e ! 3) + duration (?e ! 3) \<ge> onset ?n + duration ?n"
    by (simp add: mk_esn_def esn_of_note_def)
  show ?thesis
    using update_esn_walk[OF 1 2 3 4 5 6, of 1 "[1]"
        "[mk_esn 60 0 1, mk_esn 62 1 1, mk_esn 64 3 1, mk_esn 65 4 1]"
        "[\<lparr>pitch = 60, onset = 0, duration = 5/2\<rparr>, \<lparr>pitch = 62, onset = 1, duration = 7/2\<rparr>]"]
    by (simp add: esn_step_def walk.simps tag_def esn_set_def
      tech_col_def mk_esn_def esn_of_note_def upt_conv_Cons)
qed

section \<open>Properties of \<^verbatim>\<open>identify_serrated_pattern\<close>\<close>

lemma length_zero_pitch [simp]: "length (zero_pitch a b xs) = length xs"
  by (simp add: zero_pitch_def)

lemma nth_zero_pitch:
  "i < length xs \<Longrightarrow>
   zero_pitch a b xs ! i = (if a \<le> i \<and> i < b then (xs ! i)\<lparr>pitch := 0\<rparr> else xs ! i)"
  by (simp add: zero_pitch_def)

lemma zero_pitch_append:
  "zero_pitch (length pre + a) (length pre + b) (pre @ xs) = pre @ zero_pitch a b xs"
  by (rule nth_equalityI) (auto simp: nth_zero_pitch nth_append)

lemma nth_append_Suc_plus: "(pre @ xs) ! Suc (length pre + j) = xs ! Suc j"
  using nth_append_length_plus[of pre xs "Suc j"] by simp

lemma serrated_while_shift:
  "serrated_while e (pre @ xs) sg (length pre + off) = length pre + serrated_while e xs sg off"
proof (induction e xs sg off rule: serrated_while.induct)
  case (1 e xs sg off)
  let ?c = "\<bar>pitch (xs ! (off + 1)) - pitch (xs ! off)\<bar> = e \<and>
         sgn (pitch (xs ! (off + 1)) - pitch (xs ! off)) \<noteq> sg \<and>
         onset (xs ! (off + 1)) - (onset (xs ! off) + duration (xs ! off)) < 0.01 \<and>
         off + 1 < length xs - 1"
  have g: "(length pre + off + 1 < length (pre @ xs) - 1) = (off + 1 < length xs - 1)"
    by auto
  note facts = nth_append_Suc_plus nth_append_length_plus
  show ?case
  proof (cases ?c)
    case True
    then have a: "serrated_while e xs sg off =
        serrated_while e xs (sgn (pitch (xs ! (off + 1)) - pitch (xs ! off))) (off + 1)"
      by (subst serrated_while.simps) simp
    from True g have b: "serrated_while e (pre @ xs) sg (length pre + off) =
        serrated_while e (pre @ xs) (sgn (pitch (xs ! (off + 1)) - pitch (xs ! off)))
          (length pre + (off + 1))"
      by (subst serrated_while.simps) (simp add: facts)
    show ?thesis unfolding a b using "1.IH"[OF True] .
  next
    case False
    then have a: "serrated_while e xs sg off = off"
      by (subst serrated_while.simps) auto
    from False g have b: "serrated_while e (pre @ xs) sg (length pre + off) = length pre + off"
      by (subst serrated_while.simps) (auto simp: facts)
    show ?thesis unfolding a b ..
  qed
qed

lemma serrated_body_zero:
  "pitch (xs ! n) = 0 \<Longrightarrow> serrated_body e n (xs, m, w) = (xs, m, w)"
  by (auto simp add: serrated_body_def)

lemma serrated_body_last:
  "pitch (xs ! n) \<noteq> 0 \<Longrightarrow> \<not> n + 1 \<le> length xs - 1 \<Longrightarrow>
   serrated_body e n (xs, m, w) = (xs, m @ [last xs], w)"
  by (auto simp add: serrated_body_def)

lemma serrated_body_single:
  "pitch (xs ! n) \<noteq> 0 \<Longrightarrow> n + 1 \<le> length xs - 1 \<Longrightarrow>
   \<not> (pitch (xs ! (n + 1)) - pitch (xs ! n) = e \<and>
      onset (xs ! (n + 1)) - (onset (xs ! n) + duration (xs ! n)) < 0.01) \<Longrightarrow>
   serrated_body e n (xs, m, w) = (xs, m @ [xs ! n], w)"
  by (auto simp add: serrated_body_def)

lemma serrated_body_run:
  assumes "pitch (xs ! n) \<noteq> 0" "n + 1 \<le> length xs - 1"
    and "pitch (xs ! (n + 1)) - pitch (xs ! n) = e"
    and "onset (xs ! (n + 1)) - (onset (xs ! n) + duration (xs ! n)) < 0.01"
    and "off = (if (n + 1) + 1 \<le> length xs - 1
                then serrated_while e xs (sgn e) (n + 1) else n + 1)"
  shows "serrated_body e n (xs, m, w) =
           (zero_pitch n (off + 1) xs,
            m @ (if off - n + 1 \<ge> 5
                 then [\<lparr>pitch = pitch (xs ! n), onset = onset (xs ! n),
                        duration = onset (xs ! off) + duration (xs ! off) - onset (xs ! n)\<rparr>]
                 else take (off + 1 - n) (drop n xs)),
            w @ (if off - n + 1 \<ge> 5
                 then [\<lparr>pitch = pitch (xs ! n), onset = onset (xs ! n),
                        duration = onset (xs ! off) + duration (xs ! off) - onset (xs ! n)\<rparr>]
                 else []))"
proof (cases "(n + 1) + 1 \<le> length xs - 1")
  case True
  with assms show ?thesis
    by (cases "serrated_while e xs (sgn e) (n + 1) - n + 1 \<ge> 5")
       (simp_all add: serrated_body_def Let_def)
next
  case False
  with assms show ?thesis by (simp add: serrated_body_def Let_def)
qed

lemma serrated_body_length:
  "length (fst (serrated_body e n (xs, m, w))) = length xs"
  by (simp add: serrated_body_def Let_def)

lemma serrated_body_shift:
  assumes "n < length xs"
  shows "serrated_body e (length pre + n) (pre @ xs, m, w) =
           (case serrated_body e n (xs, m, w) of (xs', m', w') \<Rightarrow> (pre @ xs', m', w'))"
proof -
  have g1: "(Suc (length pre + n) \<le> length pre + length xs - Suc 0) = (Suc n \<le> length xs - Suc 0)"
    using assms by auto
  have g2: "(Suc (Suc (length pre + n)) \<le> length pre + length xs - Suc 0)
              = (Suc (Suc n) \<le> length xs - Suc 0)"
    using assms by auto
  have g3: "(length pre + length xs - Suc 0 < Suc (length pre + n)) = (length xs - Suc 0 < Suc n)"
    using assms by auto
  have l: "last (pre @ xs) = last xs" using assms by (cases xs) simp_all
  have w: "serrated_while e (pre @ xs) sg (Suc (length pre + n))
             = length pre + serrated_while e xs sg (Suc n)" for sg
    using serrated_while_shift[of e pre xs sg "Suc n"] by simp
  have z: "zero_pitch (length pre + n) (Suc (length pre + j)) (pre @ xs)
             = pre @ zero_pitch n (Suc j) xs" for j
    using zero_pitch_append[of pre n "Suc j" xs] by simp
  have z1: "zero_pitch (length pre + n) (Suc (Suc (length pre + n))) (pre @ xs)
             = pre @ zero_pitch n (Suc (Suc n)) xs"
    using zero_pitch_append[of pre n "Suc (Suc n)" xs] by simp
  show ?thesis
    unfolding serrated_body_def
    by (auto simp add: g1 g2 g3 l w z z1 nth_append_Suc_plus nth_append_length_plus Let_def)
qed

lemma fold_serrated_body_length:
  "length (fst (fold (serrated_body e) ns (xs, m, w))) = length xs"
proof (induction ns arbitrary: xs m w)
  case Nil
  then show ?case by simp
next
  case (Cons n ns)
  obtain xs' m' w' where b: "serrated_body e n (xs, m, w) = (xs', m', w')"
    by (cases "serrated_body e n (xs, m, w)") auto
  have "length xs' = length xs"
    using serrated_body_length[of e n xs m w] b by simp
  with Cons.IH[of xs' m' w'] b show ?case by simp
qed

lemma fold_serrated_body_shift:
  assumes "\<forall>n \<in> set ns. n < length xs"
  shows "fold (serrated_body e) (map (\<lambda>n. length pre + n) ns) (pre @ xs, m, w) =
           (case fold (serrated_body e) ns (xs, m, w) of (xs', m', w') \<Rightarrow> (pre @ xs', m', w'))"
  using assms
proof (induction ns arbitrary: xs m w)
  case Nil
  then show ?case by simp
next
  case (Cons n ns)
  obtain xs' m' w' where b: "serrated_body e n (xs, m, w) = (xs', m', w')"
    by (cases "serrated_body e n (xs, m, w)") auto
  have len: "length xs' = length xs"
    using serrated_body_length[of e n xs m w] b by simp
  have "n < length xs" using Cons.prems by simp
  then have sh: "serrated_body e (length pre + n) (pre @ xs, m, w) = (pre @ xs', m', w')"
    using serrated_body_shift[of n xs e pre m w] b by simp
  have "\<forall>n \<in> set ns. n < length xs'" using Cons.prems len by simp
  from Cons.IH[OF this, of m' w'] show ?case by (simp add: sh b)
qed

lemma serrated_body_acc:
  "serrated_body e n (xs, m0 @ m, w0 @ w) =
     (case serrated_body e n (xs, m, w) of (xs', m', w') \<Rightarrow> (xs', m0 @ m', w0 @ w'))"
proof (cases "pitch (xs ! n) = 0")
  case True
  then show ?thesis by (simp add: serrated_body_zero)
next
  case nz: False
  show ?thesis
  proof (cases "n + 1 \<le> length xs - 1")
    case False
    with nz show ?thesis by (simp add: serrated_body_last)
  next
    case inb: True
    show ?thesis
    proof (cases "pitch (xs ! (n + 1)) - pitch (xs ! n) = e \<and>
      onset (xs ! (n + 1)) - (onset (xs ! n) + duration (xs ! n)) < 0.01")
      case False
      with nz inb show ?thesis
        using serrated_body_single[of xs n e] by simp
    next
      case True
      define off where "off = (if (n + 1) + 1 \<le> length xs - 1
                then serrated_while e xs (sgn e) (n + 1) else n + 1)"
      from True have f: "pitch (xs ! (n + 1)) - pitch (xs ! n) = e"
        "onset (xs ! (n + 1)) - (onset (xs ! n) + duration (xs ! n)) < 0.01" by simp_all
      show ?thesis
        by (simp only: serrated_body_run[OF nz inb f off_def] prod.case append_assoc)
    qed
  qed
qed

lemma fold_serrated_body_acc:
  "fold (serrated_body e) ns (xs, m0 @ m, w0 @ w) =
     (case fold (serrated_body e) ns (xs, m, w) of (xs', m', w') \<Rightarrow> (xs', m0 @ m', w0 @ w'))"
proof (induction ns arbitrary: xs m w)
  case Nil
  then show ?case by simp
next
  case (Cons n ns)
  obtain xs' m' w' where b: "serrated_body e n (xs, m, w) = (xs', m', w')"
    by (cases "serrated_body e n (xs, m, w)") auto
  then have "serrated_body e n (xs, m0 @ m, w0 @ w) = (xs', m0 @ m', w0 @ w')"
    by (simp add: serrated_body_acc)
  with Cons.IH[of xs' m' w'] b show ?case by simp
qed

lemma map_plus_upt: "map (\<lambda>n. k + n) [0..<m] = [k..<k + m]"
  by (induction m) simp_all

lemma upt_split_shift: "[0..<k + m] = [0..<k] @ map (\<lambda>n. k + n) [0..<m]"
  unfolding map_plus_upt by (rule upt_add_eq_append) simp

lemma fold_serrated_body_zero:
  assumes "\<forall>n \<in> set ns. pitch (xs ! n) = 0"
  shows "fold (serrated_body e) ns (xs, m, w) = (xs, m, w)"
  using assms
proof (induction ns)
  case Nil
  then show ?case by simp
next
  case (Cons n ns)
  have "serrated_body e n (xs, m, w) = (xs, m, w)"
    by (rule serrated_body_zero) (use Cons.prems in simp)
  moreover have "fold (serrated_body e) ns (xs, m, w) = (xs, m, w)"
    by (rule Cons.IH) (use Cons.prems in simp)
  ultimately show ?case by simp
qed

text \<open>What the loop does after a prefix it has already consumed.\<close>

lemma serrated_suffix:
  assumes "\<forall>r \<in> set zs. pitch r = 0"
  shows "fold (serrated_body e) [0..<length (zs @ rest)] (zs @ rest, m0, w0) =
           (case fold (serrated_body e) [0..<length rest] (rest, [], []) of
              (xs', m', w') \<Rightarrow> (zs @ xs', m0 @ m', w0 @ w'))"
proof -
  obtain xs' m' w' where r: "fold (serrated_body e) [0..<length rest] (rest, [], []) = (xs', m', w')"
    by (cases "fold (serrated_body e) [0..<length rest] (rest, [], [])") auto
  have split: "[0..<length (zs @ rest)] = [0..<length zs] @ map (\<lambda>n. length zs + n) [0..<length rest]"
    by (simp add: upt_split_shift)
  have z: "\<forall>n \<in> set [0..<length zs]. pitch ((zs @ rest) ! n) = 0"
    using assms by (simp add: nth_append)
  have 1: "fold (serrated_body e) [0..<length zs] (zs @ rest, m0, w0) = (zs @ rest, m0, w0)"
    by (rule fold_serrated_body_zero[OF z])
  have 2: "fold (serrated_body e) [0..<length rest] (rest, m0, w0) = (xs', m0 @ m', w0 @ w')"
    using fold_serrated_body_acc[of e "[0..<length rest]" rest m0 "[]" w0 "[]"] r by simp
  have 3: "fold (serrated_body e) (map (\<lambda>n. length zs + n) [0..<length rest]) (zs @ rest, m0, w0)
             = (zs @ xs', m0 @ m', w0 @ w')"
    using fold_serrated_body_shift[of "[0..<length rest]" rest e zs m0 w0] 2 by simp
  show ?thesis
    unfolding split fold_append comp_def 1 3 r by simp
qed

lemma serrated_while_stop:
  "\<not> (\<bar>pitch (xs ! (off + 1)) - pitch (xs ! off)\<bar> = e \<and>
         sgn (pitch (xs ! (off + 1)) - pitch (xs ! off)) \<noteq> sg \<and>
         onset (xs ! (off + 1)) - (onset (xs ! off) + duration (xs ! off)) < 0.01 \<and>
         off + 1 < length xs - 1) \<Longrightarrow> serrated_while e xs sg off = off"
  by (subst serrated_while.simps) auto

lemma serrated_while_step:
  "\<bar>pitch (xs ! (off + 1)) - pitch (xs ! off)\<bar> = e \<Longrightarrow>
   sgn (pitch (xs ! (off + 1)) - pitch (xs ! off)) \<noteq> sg \<Longrightarrow>
   onset (xs ! (off + 1)) - (onset (xs ! off) + duration (xs ! off)) < 0.01 \<Longrightarrow>
   off + 1 < length xs - 1 \<Longrightarrow>
   serrated_while e xs sg off =
     serrated_while e xs (sgn (pitch (xs ! (off + 1)) - pitch (xs ! off))) (off + 1)"
  by (subst serrated_while.simps) simp

lemma serrated_while_run5:
  assumes e: "0 < e"
    and steps: "pitch a2 - pitch a1 = - e" "pitch a3 - pitch a2 = e" "pitch a4 - pitch a3 = - e"
    and gaps: "onset a2 - (onset a1 + duration a1) < 0.01"
      "onset a3 - (onset a2 + duration a2) < 0.01" "onset a4 - (onset a3 + duration a3) < 0.01"
    and rest: "rest \<noteq> []"
    and stop: "length rest = 1 \<or> pitch (hd rest) - pitch a4 \<noteq> e \<or>
               \<not> onset (hd rest) - (onset a4 + duration a4) < 0.01"
  shows "serrated_while e (a0 # a1 # a2 # a3 # a4 # rest) (sgn e) 1 = 4"
proof -
  let ?xs = "a0 # a1 # a2 # a3 # a4 # rest"
  obtain b bs where r: "rest = b # bs" using rest by (cases rest) auto
  have s1: "serrated_while e ?xs (sgn e) 1 = serrated_while e ?xs (sgn (- e)) 2"
    using serrated_while_step[of ?xs 1 e "sgn e"] e steps gaps r by (simp add: eval_nat_numeral)
  have s2: "serrated_while e ?xs (sgn (- e)) 2 = serrated_while e ?xs (sgn e) 3"
    using serrated_while_step[of ?xs 2 e "sgn (- e)"] e steps gaps r by (simp add: eval_nat_numeral)
  have s3: "serrated_while e ?xs (sgn e) 3 = serrated_while e ?xs (sgn (- e)) 4"
    using serrated_while_step[of ?xs 3 e "sgn e"] e steps gaps r by (simp add: eval_nat_numeral)
  have s4: "serrated_while e ?xs (sgn (- e)) 4 = 4"
  proof (rule serrated_while_stop)
    show "\<not> (\<bar>pitch (?xs ! (4 + 1)) - pitch (?xs ! 4)\<bar> = e \<and>
         sgn (pitch (?xs ! (4 + 1)) - pitch (?xs ! 4)) \<noteq> sgn (- e) \<and>
         onset (?xs ! (4 + 1)) - (onset (?xs ! 4) + duration (?xs ! 4)) < 0.01 \<and>
         4 + 1 < length ?xs - 1)"
      using stop e r by (auto simp: sgn_if abs_if eval_nat_numeral split: if_splits)
  qed
  show ?thesis unfolding s1 s2 s3 s4 ..
qed

lemma zero_pitch_prefix:
  "zero_pitch 0 (length zs) (zs @ rest) = map (\<lambda>r. r\<lparr>pitch := 0\<rparr>) zs @ rest"
  by (rule nth_equalityI) (auto simp: nth_zero_pitch nth_append)

lemma serrated_after_run:
  assumes body: "serrated_body e 0 (zs @ rest, [], []) =
                   (map (\<lambda>r. r\<lparr>pitch := 0\<rparr>) zs @ rest, m0, w0)"
    and zs: "zs \<noteq> []"
  shows "identify_serrated_pattern (zs @ rest) e =
           (m0 @ fst (identify_serrated_pattern rest e),
            w0 @ snd (identify_serrated_pattern rest e))"
proof -
  let ?z = "map (\<lambda>r. r\<lparr>pitch := 0\<rparr>) zs"
  obtain xs' m' w' where r: "fold (serrated_body e) [0..<length rest] (rest, [], []) = (xs', m', w')"
    by (cases "fold (serrated_body e) [0..<length rest] (rest, [], [])") auto
  have N: "[0..<length (zs @ rest)] = 0 # [1..<length (zs @ rest)]"
    using zs by (simp add: upt_conv_Cons)
  have N': "[0..<length (?z @ rest)] = 0 # [1..<length (zs @ rest)]"
    using zs by (simp add: upt_conv_Cons)
  have z0: "pitch ((?z @ rest) ! 0) = 0"
    using zs by (cases zs) simp_all
  have "fold (serrated_body e) [0..<length (zs @ rest)] (zs @ rest, [], []) =
        fold (serrated_body e) [1..<length (zs @ rest)] (?z @ rest, m0, w0)"
    unfolding N by (simp add: body)
  also have "\<dots> = fold (serrated_body e) [0..<length (?z @ rest)] (?z @ rest, m0, w0)"
    unfolding N' by (simp add: serrated_body_zero[OF z0])
  also have "\<dots> = (?z @ xs', m0 @ m', w0 @ w')"
    using serrated_suffix[of ?z e rest m0 w0] r by simp
  finally show ?thesis
    by (simp add: identify_serrated_pattern_def r)
qed

lemma serrated_run5_merged:
  assumes e: "0 < e" and p0: "pitch a0 \<noteq> 0"
    and steps: "pitch a1 - pitch a0 = e" "pitch a2 - pitch a1 = - e"
      "pitch a3 - pitch a2 = e" "pitch a4 - pitch a3 = - e"
    and gaps: "onset a1 - (onset a0 + duration a0) < 0.01"
      "onset a2 - (onset a1 + duration a1) < 0.01"
      "onset a3 - (onset a2 + duration a2) < 0.01" "onset a4 - (onset a3 + duration a3) < 0.01"
    and rest: "rest \<noteq> []"
    and stop: "length rest = 1 \<or> pitch (hd rest) - pitch a4 \<noteq> e \<or>
               \<not> onset (hd rest) - (onset a4 + duration a4) < 0.01"
  shows "identify_serrated_pattern (a0 # a1 # a2 # a3 # a4 # rest) e =
           (\<lparr>pitch = pitch a0, onset = onset a0,
              duration = onset a4 + duration a4 - onset a0\<rparr>
              # fst (identify_serrated_pattern rest e),
            \<lparr>pitch = pitch a0, onset = onset a0,
              duration = onset a4 + duration a4 - onset a0\<rparr>
              # snd (identify_serrated_pattern rest e))"
proof -
  let ?zs = "[a0, a1, a2, a3, a4]"
  let ?xs = "?zs @ rest"
  let ?M = "\<lparr>pitch = pitch a0, onset = onset a0, duration = onset a4 + duration a4 - onset a0\<rparr>"
  have w: "serrated_while e ?xs (sgn e) (0 + 1) = 4"
    using serrated_while_run5[OF e steps(2-4) gaps(2-4) rest stop, of a0] by simp
  have off: "4 = (if (0 + 1) + 1 \<le> length ?xs - 1
                then serrated_while e ?xs (sgn e) (0 + 1) else 0 + 1)"
    unfolding w by simp
  have "serrated_body e 0 (?xs, [], []) =
          (zero_pitch 0 (4 + 1) ?xs,
            [] @ (if 4 - 0 + 1 \<ge> (5::nat)
                 then [\<lparr>pitch = pitch (?xs ! 0), onset = onset (?xs ! 0),
                        duration = onset (?xs ! 4) + duration (?xs ! 4) - onset (?xs ! 0)\<rparr>]
                 else take (4 + 1 - 0) (drop 0 ?xs)),
            [] @ (if 4 - 0 + 1 \<ge> (5::nat)
                 then [\<lparr>pitch = pitch (?xs ! 0), onset = onset (?xs ! 0),
                        duration = onset (?xs ! 4) + duration (?xs ! 4) - onset (?xs ! 0)\<rparr>]
                 else []))"
    by (rule serrated_body_run[OF _ _ _ _ off]) (use p0 steps gaps in simp_all)
  moreover have "zero_pitch 0 (4 + 1) ?xs = map (\<lambda>r. r\<lparr>pitch := 0\<rparr>) ?zs @ rest"
    using zero_pitch_prefix[of ?zs rest] by (simp add: eval_nat_numeral)
  ultimately have body: "serrated_body e 0 (?xs, [], []) =
      (map (\<lambda>r. r\<lparr>pitch := 0\<rparr>) ?zs @ rest, [?M], [?M])"
    by (simp add: eval_nat_numeral)
  from serrated_after_run[OF body] show ?thesis by simp
qed

lemma identify_serrated_pattern_Nil: "identify_serrated_pattern [] e = ([], [])"
  by (simp add: identify_serrated_pattern_def)

lemma identify_serrated_pattern_single:
  "pitch a \<noteq> 0 \<Longrightarrow> identify_serrated_pattern [a] e = ([a], [])"
  by (simp add: identify_serrated_pattern_def serrated_body_last)

lemma serrated_while_run4:
  assumes e: "0 < e"
    and steps: "pitch a2 - pitch a1 = - e" "pitch a3 - pitch a2 = e"
    and gaps: "onset a2 - (onset a1 + duration a1) < 0.01"
      "onset a3 - (onset a2 + duration a2) < 0.01"
    and rest: "rest \<noteq> []"
    and stop: "length rest = 1 \<or> pitch (hd rest) - pitch a3 \<noteq> - e \<or>
               \<not> onset (hd rest) - (onset a3 + duration a3) < 0.01"
  shows "serrated_while e (a0 # a1 # a2 # a3 # rest) (sgn e) 1 = 3"
proof -
  let ?xs = "a0 # a1 # a2 # a3 # rest"
  obtain b bs where r: "rest = b # bs" using rest by (cases rest) auto
  have s1: "serrated_while e ?xs (sgn e) 1 = serrated_while e ?xs (sgn (- e)) 2"
    using serrated_while_step[of ?xs 1 e "sgn e"] e steps gaps r by (simp add: eval_nat_numeral)
  have s2: "serrated_while e ?xs (sgn (- e)) 2 = serrated_while e ?xs (sgn e) 3"
    using serrated_while_step[of ?xs 2 e "sgn (- e)"] e steps gaps r by (simp add: eval_nat_numeral)
  have s3: "serrated_while e ?xs (sgn e) 3 = 3"
  proof (rule serrated_while_stop)
    show "\<not> (\<bar>pitch (?xs ! (3 + 1)) - pitch (?xs ! 3)\<bar> = e \<and>
         sgn (pitch (?xs ! (3 + 1)) - pitch (?xs ! 3)) \<noteq> sgn e \<and>
         onset (?xs ! (3 + 1)) - (onset (?xs ! 3) + duration (?xs ! 3)) < 0.01 \<and>
         3 + 1 < length ?xs - 1)"
      using stop e r by (auto simp: sgn_if abs_if eval_nat_numeral split: if_splits)
  qed
  show ?thesis unfolding s1 s2 s3 ..
qed

lemma serrated_while_run3_end:
  assumes e: "0 < e"
    and steps: "pitch a2 - pitch a1 = - e"
    and gaps: "onset a2 - (onset a1 + duration a1) < 0.01"
  shows "serrated_while e [a0, a1, a2, a3] (sgn e) 1 = 2"
proof -
  let ?xs = "[a0, a1, a2, a3]"
  have s1: "serrated_while e ?xs (sgn e) 1 = serrated_while e ?xs (sgn (- e)) 2"
    using serrated_while_step[of ?xs 1 e "sgn e"] e steps gaps by (simp add: eval_nat_numeral)
  have s2: "serrated_while e ?xs (sgn (- e)) 2 = 2"
    by (rule serrated_while_stop) simp
  show ?thesis unfolding s1 s2 ..
qed

lemma serrated_run4_kept:
  assumes e: "0 < e" and p0: "pitch a0 \<noteq> 0" and p3: "pitch a3 \<noteq> 0"
    and steps: "pitch a1 - pitch a0 = e" "pitch a2 - pitch a1 = - e" "pitch a3 - pitch a2 = e"
    and gaps: "onset a1 - (onset a0 + duration a0) < 0.01"
      "onset a2 - (onset a1 + duration a1) < 0.01"
      "onset a3 - (onset a2 + duration a2) < 0.01"
    and stop: "rest = [] \<or> length rest = 1 \<or> pitch (hd rest) - pitch a3 \<noteq> - e \<or>
               \<not> onset (hd rest) - (onset a3 + duration a3) < 0.01"
  shows "identify_serrated_pattern (a0 # a1 # a2 # a3 # rest) e =
           (a0 # a1 # a2 # a3 # fst (identify_serrated_pattern rest e),
            snd (identify_serrated_pattern rest e))"
proof (cases "rest = []")
  case True
  let ?zs = "[a0, a1, a2]"
  let ?xs = "?zs @ [a3]"
  have w: "serrated_while e ?xs (sgn e) (0 + 1) = 2"
    using serrated_while_run3_end[OF e steps(2) gaps(2), of a0 a3] by simp
  have off: "2 = (if (0 + 1) + 1 \<le> length ?xs - 1
                then serrated_while e ?xs (sgn e) (0 + 1) else 0 + 1)"
    unfolding w by simp
  have "serrated_body e 0 (?xs, [], []) =
          (zero_pitch 0 (2 + 1) ?xs,
            [] @ (if 2 - 0 + 1 \<ge> (5::nat)
                 then [\<lparr>pitch = pitch (?xs ! 0), onset = onset (?xs ! 0),
                        duration = onset (?xs ! 2) + duration (?xs ! 2) - onset (?xs ! 0)\<rparr>]
                 else take (2 + 1 - 0) (drop 0 ?xs)),
            [] @ (if 2 - 0 + 1 \<ge> (5::nat)
                 then [\<lparr>pitch = pitch (?xs ! 0), onset = onset (?xs ! 0),
                        duration = onset (?xs ! 2) + duration (?xs ! 2) - onset (?xs ! 0)\<rparr>]
                 else []))"
    by (rule serrated_body_run[OF _ _ _ _ off]) (use p0 steps gaps in simp_all)
  moreover have "zero_pitch 0 (2 + 1) ?xs = map (\<lambda>r. r\<lparr>pitch := 0\<rparr>) ?zs @ [a3]"
    using zero_pitch_prefix[of ?zs "[a3]"] by (simp add: eval_nat_numeral)
  ultimately have body: "serrated_body e 0 (?xs, [], []) =
      (map (\<lambda>r. r\<lparr>pitch := 0\<rparr>) ?zs @ [a3], ?zs, [])"
    by (simp add: eval_nat_numeral)
  from serrated_after_run[OF body] True p3 show ?thesis
    by (simp add: identify_serrated_pattern_single identify_serrated_pattern_Nil)
next
  case False
  let ?zs = "[a0, a1, a2, a3]"
  let ?xs = "?zs @ rest"
  from False stop have stop': "length rest = 1 \<or> pitch (hd rest) - pitch a3 \<noteq> - e \<or>
               \<not> onset (hd rest) - (onset a3 + duration a3) < 0.01" by simp
  have w: "serrated_while e ?xs (sgn e) (0 + 1) = 3"
    using serrated_while_run4[OF e steps(2,3) gaps(2,3) False stop', of a0] by simp
  have off: "3 = (if (0 + 1) + 1 \<le> length ?xs - 1
                then serrated_while e ?xs (sgn e) (0 + 1) else 0 + 1)"
    unfolding w by simp
  have "serrated_body e 0 (?xs, [], []) =
          (zero_pitch 0 (3 + 1) ?xs,
            [] @ (if 3 - 0 + 1 \<ge> (5::nat)
                 then [\<lparr>pitch = pitch (?xs ! 0), onset = onset (?xs ! 0),
                        duration = onset (?xs ! 3) + duration (?xs ! 3) - onset (?xs ! 0)\<rparr>]
                 else take (3 + 1 - 0) (drop 0 ?xs)),
            [] @ (if 3 - 0 + 1 \<ge> (5::nat)
                 then [\<lparr>pitch = pitch (?xs ! 0), onset = onset (?xs ! 0),
                        duration = onset (?xs ! 3) + duration (?xs ! 3) - onset (?xs ! 0)\<rparr>]
                 else []))"
    by (rule serrated_body_run[OF _ _ _ _ off]) (use p0 steps gaps in simp_all)
  moreover have "zero_pitch 0 (3 + 1) ?xs = map (\<lambda>r. r\<lparr>pitch := 0\<rparr>) ?zs @ rest"
    using zero_pitch_prefix[of ?zs rest] by (simp add: eval_nat_numeral)
  ultimately have body: "serrated_body e 0 (?xs, [], []) =
      (map (\<lambda>r. r\<lparr>pitch := 0\<rparr>) ?zs @ rest, ?zs, [])"
    by (simp add: eval_nat_numeral)
  from serrated_after_run[OF body] show ?thesis by simp
qed

text \<open>Runs never cross a pair of neighbours that is not linked.\<close>

lemma serrated_while_bound:
  assumes "off \<le> j"
    and "\<not> (\<bar>pitch (ys ! (j + 1)) - pitch (ys ! j)\<bar> = e \<and>
            onset (ys ! (j + 1)) - (onset (ys ! j) + duration (ys ! j)) < 0.01)"
  shows "serrated_while e ys sg off \<le> j"
  using assms
proof (induction e ys sg off rule: serrated_while.induct)
  case (1 e ys sg off)
  let ?c = "\<bar>pitch (ys ! (off + 1)) - pitch (ys ! off)\<bar> = e \<and>
         sgn (pitch (ys ! (off + 1)) - pitch (ys ! off)) \<noteq> sg \<and>
         onset (ys ! (off + 1)) - (onset (ys ! off) + duration (ys ! off)) < 0.01 \<and>
         off + 1 < length ys - 1"
  show ?case
  proof (cases ?c)
    case True
    then have "off \<noteq> j" using "1.prems"(2) by auto
    then have le: "off + 1 \<le> j" using "1.prems"(1) by simp
    have "serrated_while e ys sg off =
        serrated_while e ys (sgn (pitch (ys ! (off + 1)) - pitch (ys ! off))) (off + 1)"
      using True by (subst serrated_while.simps) simp
    also have "\<dots> \<le> j" by (rule "1.IH"[OF True le "1.prems"(2)])
    finally show ?thesis .
  next
    case False
    then have "serrated_while e ys sg off = off" by (rule serrated_while_stop)
    then show ?thesis using "1.prems"(1) by simp
  qed
qed

lemma serrated_while_ge: "off \<le> serrated_while e ys sg off"
proof (induction e ys sg off rule: serrated_while.induct)
  case (1 e ys sg off)
  let ?c = "\<bar>pitch (ys ! (off + 1)) - pitch (ys ! off)\<bar> = e \<and>
         sgn (pitch (ys ! (off + 1)) - pitch (ys ! off)) \<noteq> sg \<and>
         onset (ys ! (off + 1)) - (onset (ys ! off) + duration (ys ! off)) < 0.01 \<and>
         off + 1 < length ys - 1"
  show ?case
  proof (cases ?c)
    case True
    have "serrated_while e ys sg off =
        serrated_while e ys (sgn (pitch (ys ! (off + 1)) - pitch (ys ! off))) (off + 1)"
      using True by (subst serrated_while.simps) simp
    with "1.IH"[OF True] show ?thesis by simp
  next
    case False
    then have "serrated_while e ys sg off = off" by (rule serrated_while_stop)
    then show ?thesis by simp
  qed
qed

lemma serrated_body_untouched:
  assumes inv: "untouched_from k n orig ys" and e: "0 < e"
    and n: "n < k" and k: "k < length orig" "0 < k"
    and unlinked: "\<not> (\<bar>pitch (orig ! k) - pitch (orig ! (k - 1))\<bar> = e \<and>
            onset (orig ! k) - (onset (orig ! (k - 1)) + duration (orig ! (k - 1))) < 0.01)"
  shows "untouched_from k (n + 1) orig (fst (serrated_body e n (ys, m, w)))"
proof -
  from inv obtain z where len: "length ys = length orig" and z: "z \<le> k"
    and same: "\<And>i. z \<le> i \<Longrightarrow> i < length ys \<Longrightarrow> ys ! i = orig ! i"
    and zero: "\<And>i. n \<le> i \<Longrightarrow> i < z \<Longrightarrow> pitch (ys ! i) = 0"
    unfolding untouched_from_def by blast
  have keep: "untouched_from k (n + 1) orig ys"
    unfolding untouched_from_def using len z same zero by (intro conjI exI[of _ z]) auto
  show ?thesis
  proof (cases "pitch (ys ! n) = 0")
    case True
    then show ?thesis using keep by (simp add: serrated_body_zero)
  next
    case nz: False
    then have zn: "z \<le> n" using zero[of n] by (meson not_le order_refl)
    show ?thesis
    proof (cases "n + 1 \<le> length ys - 1")
      case False
      with nz show ?thesis using keep by (simp add: serrated_body_last)
    next
      case inb: True
      show ?thesis
      proof (cases "pitch (ys ! (n + 1)) - pitch (ys ! n) = e \<and>
          onset (ys ! (n + 1)) - (onset (ys ! n) + duration (ys ! n)) < 0.01")
        case False
        with nz inb show ?thesis using keep serrated_body_single[of ys n e m w] by simp
      next
        case True
        define off where "off = (if (n + 1) + 1 \<le> length ys - 1
                  then serrated_while e ys (sgn e) (n + 1) else n + 1)"
        from True have f: "pitch (ys ! (n + 1)) - pitch (ys ! n) = e"
          "onset (ys ! (n + 1)) - (onset (ys ! n) + duration (ys ! n)) < 0.01" by simp_all
        have yk: "ys ! k = orig ! k" using same[of k] z k len by simp
        have yk1: "ys ! (k - 1) = orig ! (k - 1)" if "n \<le> k - 1"
          using same[of "k - 1"] zn that k len by simp
        have n1: "n + 1 \<le> k - 1"
        proof (rule ccontr)
          assume "\<not> n + 1 \<le> k - 1"
          with n have nk: "n = k - 1" "n + 1 = k" by simp_all
          from f unlinked show False
            unfolding nk(2) using yk yk1 nk(1) e by (simp add: nk(1)[symmetric])
        qed
        have ul: "\<not> (\<bar>pitch (ys ! ((k - 1) + 1)) - pitch (ys ! (k - 1))\<bar> = e \<and>
            onset (ys ! ((k - 1) + 1)) - (onset (ys ! (k - 1)) + duration (ys ! (k - 1))) < 0.01)"
          using unlinked yk yk1 n1 k by simp
        have offk: "off \<le> k - 1"
          unfolding off_def using serrated_while_bound[OF n1 ul] n1 by simp
        have offn: "n < off + 1"
          unfolding off_def using serrated_while_ge[of "n + 1" e ys "sgn e"] by simp
        have body: "fst (serrated_body e n (ys, m, w)) = zero_pitch n (off + 1) ys"
          by (simp add: serrated_body_run[OF nz inb f off_def])
        show ?thesis
          unfolding body untouched_from_def
        proof (intro conjI exI[of _ "off + 1"] allI impI)
          show "length (zero_pitch n (off + 1) ys) = length orig" using len by simp
          show "off + 1 \<le> k" using offk k by simp
        next
          fix i assume "off + 1 \<le> i \<and> i < length (zero_pitch n (off + 1) ys)"
          then have i: "off + 1 \<le> i" "i < length ys" by simp_all
          then have "zero_pitch n (off + 1) ys ! i = ys ! i" by (simp add: nth_zero_pitch)
          also have "\<dots> = orig ! i" using same[of i] i zn offn by simp
          finally show "zero_pitch n (off + 1) ys ! i = orig ! i" .
        next
          fix i assume "n + 1 \<le> i \<and> i < off + 1"
          then have i: "n \<le> i" "i < off + 1" by simp_all
          have "i < length ys" using i offk k len by simp
          then show "pitch (zero_pitch n (off + 1) ys ! i) = 0"
            using i by (simp add: nth_zero_pitch)
        qed
      qed
    qed
  qed
qed

lemma fold_serrated_untouched:
  assumes inv: "untouched_from k n orig ys" and e: "0 < e"
    and n: "n \<le> k" and k: "k < length orig" "0 < k"
    and unlinked: "\<not> (\<bar>pitch (orig ! k) - pitch (orig ! (k - 1))\<bar> = e \<and>
            onset (orig ! k) - (onset (orig ! (k - 1)) + duration (orig ! (k - 1))) < 0.01)"
  shows "untouched_from k k orig (fst (fold (serrated_body e) [n..<k] (ys, m, w)))"
  using inv n
proof (induction "k - n" arbitrary: n ys m w)
  case 0
  then show ?case by simp
next
  case (Suc d)
  then have lt: "n < k" by simp
  obtain ys' m' w' where b: "serrated_body e n (ys, m, w) = (ys', m', w')"
    by (cases "serrated_body e n (ys, m, w)") auto
  have inv': "untouched_from k (n + 1) orig ys'"
    using serrated_body_untouched[OF Suc.prems(1) e lt k unlinked, of m w] b by simp
  have "untouched_from k k orig (fst (fold (serrated_body e) [n + 1..<k] (ys', m', w')))"
    by (rule Suc.hyps(1)) (use Suc.hyps(2) lt inv' in simp_all)
  then show ?case using lt b by (simp add: upt_conv_Cons)
qed

lemma serrated_junction:
  assumes e: "0 < e" and xs: "xs \<noteq> []"
    and unlinked: "pre = [] \<or>
       \<not> (\<bar>pitch (hd xs) - pitch (last pre)\<bar> = e \<and>
          onset (hd xs) - (onset (last pre) + duration (last pre)) < 0.01)"
  shows "identify_serrated_pattern (pre @ xs) e =
           (fst (serrated_scan e (length pre) (pre @ xs)) @ fst (identify_serrated_pattern xs e),
            snd (serrated_scan e (length pre) (pre @ xs)) @ snd (identify_serrated_pattern xs e))"
proof -
  let ?k = "length pre"
  let ?orig = "pre @ xs"
  obtain ys m0 w0 where f: "fold (serrated_body e) [0..<?k] (?orig, [], []) = (ys, m0, w0)"
    by (cases "fold (serrated_body e) [0..<?k] (?orig, [], [])") auto
  obtain xs' m' w' where r: "fold (serrated_body e) [0..<length xs] (xs, [], []) = (xs', m', w')"
    by (cases "fold (serrated_body e) [0..<length xs] (xs, [], [])") auto
  have u: "untouched_from ?k ?k ?orig ys"
  proof (cases "pre = []")
    case True
    with f show ?thesis by (simp add: untouched_from_def)
  next
    case False
    have o1: "?orig ! ?k = hd xs" using xs by (simp add: hd_conv_nth nth_append)
    have o2: "?orig ! (?k - 1) = last pre" using False by (simp add: nth_append last_conv_nth)
    have ul: "\<not> (\<bar>pitch (?orig ! ?k) - pitch (?orig ! (?k - 1))\<bar> = e \<and>
            onset (?orig ! ?k) - (onset (?orig ! (?k - 1)) + duration (?orig ! (?k - 1))) < 0.01)"
      unfolding o1 o2 using unlinked False by simp
    have i0: "untouched_from ?k 0 ?orig ?orig"
      unfolding untouched_from_def by (intro conjI exI[of _ 0]) simp_all
    have "untouched_from ?k ?k ?orig (fst (fold (serrated_body e) [0..<?k] (?orig, [], [])))"
      by (rule fold_serrated_untouched[OF i0 e _ _ _ ul]) (use xs False in simp_all)
    with f show ?thesis by simp
  qed
  then have len: "length ys = length ?orig"
    and same: "\<And>i. ?k \<le> i \<Longrightarrow> i < length ys \<Longrightarrow> ys ! i = ?orig ! i"
    unfolding untouched_from_def by auto
  have ys: "ys = take ?k ys @ xs"
  proof (rule nth_equalityI)
    show "length ys = length (take ?k ys @ xs)" using len by simp
  next
    fix i assume i: "i < length ys"
    show "ys ! i = (take ?k ys @ xs) ! i"
    proof (cases "i < ?k")
      case True
      then show ?thesis using len by (simp add: nth_append)
    next
      case False
      then have "ys ! i = ?orig ! i" using same i by simp
      then show ?thesis using False len by (simp add: nth_append)
    qed
  qed
  define pre' where "pre' = take ?k ys"
  have lp: "length pre' = ?k" unfolding pre'_def using len by simp
  have ys': "ys = pre' @ xs" using ys pre'_def by simp
  have 2: "fold (serrated_body e) [0..<length xs] (xs, m0, w0) = (xs', m0 @ m', w0 @ w')"
    using fold_serrated_body_acc[of e "[0..<length xs]" xs m0 "[]" w0 "[]"] r by simp
  have 3: "fold (serrated_body e) (map (\<lambda>n. length pre' + n) [0..<length xs]) (pre' @ xs, m0, w0)
             = (pre' @ xs', m0 @ m', w0 @ w')"
    using fold_serrated_body_shift[of "[0..<length xs]" xs e pre' m0 w0] 2 by simp
  have split: "[0..<length ?orig] = [0..<?k] @ map (\<lambda>n. ?k + n) [0..<length xs]"
    by (simp add: upt_split_shift)
  have "fold (serrated_body e) [0..<length ?orig] (?orig, [], []) = (pre' @ xs', m0 @ m', w0 @ w')"
    unfolding split fold_append comp_def f ys' using 3 lp by simp
  then show ?thesis
    by (simp add: identify_serrated_pattern_def serrated_scan_def f r)
qed

text \<open>
  C3 (as amended): let the extent be positive and let a run start at a note \<open>a0\<close> of
  non-zero pitch that is not linked to its predecessor (no predecessor, or their pitch step
  is not of the extent's magnitude, or their gap is not below 0.01 s).  If the run goes
  up by the extent first and then alternates (steps \<open>+e, -e, +e, -e\<close>, all gaps below
  0.01 s), has exactly 5 notes and is followed by at least one more note of the array
  that does not continue it (or is the array's last note), then the 5 notes are replaced
  by one merged note with the first note's pitch and onset and the duration from the first
  onset to the last offset, and the merged note is registered as wild vibrato.  If the run
  has exactly 4 notes of that shape, they are copied through one by one and nothing is
  registered for them.  In both cases the notes after the run are processed as an array of
  their own, and what the scan of the notes before the run has produced stays in front.
\<close>

theorem identify_serrated_pattern_threshold:
  assumes e: "0 < e"
    and junction: "pre = [] \<or>
       \<not> (\<bar>pitch a0 - pitch (last pre)\<bar> = e \<and>
          onset a0 - (onset (last pre) + duration (last pre)) < 0.01)"
    and p0: "pitch a0 \<noteq> 0"
    and steps: "pitch a1 - pitch a0 = e" "pitch a2 - pitch a1 = - e" "pitch a3 - pitch a2 = e"
    and gaps: "onset a1 - (onset a0 + duration a0) < 0.01"
      "onset a2 - (onset a1 + duration a1) < 0.01"
      "onset a3 - (onset a2 + duration a2) < 0.01"
  shows "(pitch a4 - pitch a3 = - e \<and> onset a4 - (onset a3 + duration a3) < 0.01 \<and>
          rest \<noteq> [] \<and>
          (length rest = 1 \<or> pitch (hd rest) - pitch a4 \<noteq> e \<or>
           \<not> onset (hd rest) - (onset a4 + duration a4) < 0.01) \<longrightarrow>
          identify_serrated_pattern (pre @ a0 # a1 # a2 # a3 # a4 # rest) e =
            (fst (serrated_scan e (length pre) (pre @ a0 # a1 # a2 # a3 # a4 # rest))
               @ \<lparr>pitch = pitch a0, onset = onset a0,
                   duration = onset a4 + duration a4 - onset a0\<rparr>
               # fst (identify_serrated_pattern rest e),
             snd (serrated_scan e (length pre) (pre @ a0 # a1 # a2 # a3 # a4 # rest))
               @ \<lparr>pitch = pitch a0, onset = onset a0,
                   duration = onset a4 + duration a4 - onset a0\<rparr>
               # snd (identify_serrated_pattern rest e))) \<and>
         (pitch a3 \<noteq> 0 \<and>
          (rest = [] \<or> length rest = 1 \<or> pitch (hd rest) - pitch a3 \<noteq> - e \<or>
           \<not> onset (hd rest) - (onset a3 + duration a3) < 0.01) \<longrightarrow>
          identify_serrated_pattern (pre @ a0 # a1 # a2 # a3 # rest) e =
            (fst (serrated_scan e (length pre) (pre @ a0 # a1 # a2 # a3 # rest))
               @ a0 # a1 # a2 # a3 # fst (identify_serrated_pattern rest e),
             snd (serrated_scan e (length pre) (pre @ a0 # a1 # a2 # a3 # rest))
               @ snd (identify_serrated_pattern rest e)))"
proof (intro conjI impI)
  assume a: "pitch a4 - pitch a3 = - e \<and> onset a4 - (onset a3 + duration a3) < 0.01 \<and>
          rest \<noteq> [] \<and>
          (length rest = 1 \<or> pitch (hd rest) - pitch a4 \<noteq> e \<or>
           \<not> onset (hd rest) - (onset a4 + duration a4) < 0.01)"
  let ?xs = "a0 # a1 # a2 # a3 # a4 # rest"
  have j: "pre = [] \<or>
       \<not> (\<bar>pitch (hd ?xs) - pitch (last pre)\<bar> = e \<and>
          onset (hd ?xs) - (onset (last pre) + duration (last pre)) < 0.01)"
    using junction by simp
  have r: "identify_serrated_pattern ?xs e =
           (\<lparr>pitch = pitch a0, onset = onset a0,
              duration = onset a4 + duration a4 - onset a0\<rparr>
              # fst (identify_serrated_pattern rest e),
            \<lparr>pitch = pitch a0, onset = onset a0,
              duration = onset a4 + duration a4 - onset a0\<rparr>
              # snd (identify_serrated_pattern rest e))"
    by (rule serrated_run5_merged[OF e p0 steps _ gaps]) (use a in simp_all)
  show "identify_serrated_pattern (pre @ ?xs) e =
            (fst (serrated_scan e (length pre) (pre @ ?xs))
               @ \<lparr>pitch = pitch a0, onset = onset a0,
                   duration = onset a4 + duration a4 - onset a0\<rparr>
               # fst (identify_serrated_pattern rest e),
             snd (serrated_scan e (length pre) (pre @ ?xs))
               @ \<lparr>pitch = pitch a0, onset = onset a0,
                   duration = onset a4 + duration a4 - onset a0\<rparr>
               # snd (identify_serrated_pattern rest e))"
    unfolding serrated_junction[OF e _ j, simplified] r by simp
next
  assume a: "pitch a3 \<noteq> 0 \<and>
          (rest = [] \<or> length rest = 1 \<or> pitch (hd rest) - pitch a3 \<noteq> - e \<or>
           \<not> onset (hd rest) - (onset a3 + duration a3) < 0.01)"
  let ?xs = "a0 # a1 # a2 # a3 # rest"
  have j: "pre = [] \<or>
       \<not> (\<bar>pitch (hd ?xs) - pitch (last pre)\<bar> = e \<and>
          onset (hd ?xs) - (onset (last pre) + duration (last pre)) < 0.01)"
    using junction by simp
  have r: "identify_serrated_pattern ?xs e =
           (a0 # a1 # a2 # a3 # fst (identify_serrated_pattern rest e),
            snd (identify_serrated_pattern rest e))"
    by (rule serrated_run4_kept[OF e p0 _ steps gaps]) (use a in simp_all)
  show "identify_serrated_pattern (pre @ ?xs) e =
            (fst (serrated_scan e (length pre) (pre @ ?xs))
               @ a0 # a1 # a2 # a3 # fst (identify_serrated_pattern rest e),
             snd (serrated_scan e (length pre) (pre @ ?xs))
               @ snd (identify_serrated_pattern rest e))"
    unfolding serrated_junction[OF e _ j, simplified] r by simp
qed

text \<open>
  The claim as it was stated fails on a run of exactly 5 notes that ends the array: the
  loop never extends a run to the last note, so nothing is merged or registered.
\<close>

theorem identify_serrated_pattern_counterexample:
  "identify_serrated_pattern [rn 60 0 1, rn 61 1 1, rn 60 2 1, rn 61 3 1, rn 60 4 1] 1 =
     ([rn 60 0 1, rn 61 1 1, rn 60 2 1, rn 61 3 1, rn 60 4 1], [])"
proof -
  have "identify_serrated_pattern (rn 60 0 1 # rn 61 1 1 # rn 60 2 1 # rn 61 3 1 # [rn 60 4 1]) 1 =
           (rn 60 0 1 # rn 61 1 1 # rn 60 2 1 # rn 61 3 1 # fst (identify_serrated_pattern [rn 60 4 1] 1),
            snd (identify_serrated_pattern [rn 60 4 1] 1))"
    by (rule serrated_run4_kept) (simp_all add: rn_def)
  then show ?thesis
    by (simp add: identify_serrated_pattern_single rn_def)
qed

theorem identify_serrated_pattern_threshold_witness:
  "identify_serrated_pattern
     [rn 50 (-2) 1, rn 60 0 1, rn 61 1 1, rn 60 2 1, rn 61 3 1, rn 60 4 1, rn 70 5 1] 1 =
     ([rn 50 (-2) 1, rn 60 0 5, rn 70 5 1], [rn 60 0 5]) \<and>
   identify_serrated_pattern
     [rn 50 (-2) 1, rn 60 0 1, rn 61 1 1, rn 60 2 1, rn 61 3 1, rn 70 5 1] 1 =
     ([rn 50 (-2) 1, rn 60 0 1, rn 61 1 1, rn 60 2 1, rn 61 3 1, rn 70 5 1], [])"
proof -
  have scan5: "serrated_scan 1 (length [rn 50 (-2) 1])
      ([rn 50 (-2) 1] @ rn 60 0 1 # rn 61 1 1 # rn 60 2 1 # rn 61 3 1 # rn 60 4 1 # [rn 70 5 1])
      = ([rn 50 (-2) 1], [])"
    by (simp add: serrated_scan_def serrated_body_def rn_def)
  have scan4: "serrated_scan 1 (length [rn 50 (-2) 1])
      ([rn 50 (-2) 1] @ rn 60 0 1 # rn 61 1 1 # rn 60 2 1 # rn 61 3 1 # [rn 70 5 1])
      = ([rn 50 (-2) 1], [])"
    by (simp add: serrated_scan_def serrated_body_def rn_def)
  have last: "identify_serrated_pattern [rn 70 5 1] 1 = ([rn 70 5 1], [])"
    by (simp add: identify_serrated_pattern_single rn_def)
  note t = identify_serrated_pattern_threshold[of 1 "[rn 50 (-2) 1]" "rn 60 0 1" "rn 61 1 1"
      "rn 60 2 1" "rn 61 3 1" "rn 60 4 1" "[rn 70 5 1]"]
  have h: "(0::real) < 1" "[rn 50 (-2) 1] = [] \<or>
       \<not> (\<bar>pitch (rn 60 0 1) - pitch (last [rn 50 (-2) 1])\<bar> = 1 \<and>
          onset (rn 60 0 1) - (onset (last [rn 50 (-2) 1]) + duration (last [rn 50 (-2) 1])) < 0.01)"
    "pitch (rn 60 0 1) \<noteq> 0"
    "pitch (rn 61 1 1) - pitch (rn 60 0 1) = 1" "pitch (rn 60 2 1) - pitch (rn 61 1 1) = - 1"
    "pitch (rn 61 3 1) - pitch (rn 60 2 1) = 1"
    "onset (rn 61 1 1) - (onset (rn 60 0 1) + duration (rn 60 0 1)) < 0.01"
    "onset (rn 60 2 1) - (onset (rn 61 1 1) + duration (rn 61 1 1)) < 0.01"
    "onset (rn 61 3 1) - (onset (rn 60 2 1) + duration (rn 60 2 1)) < 0.01"
    by (simp_all add: rn_def)
  have A: "identify_serrated_pattern
     ([rn 50 (-2) 1] @ rn 60 0 1 # rn 61 1 1 # rn 60 2 1 # rn 61 3 1 # rn 60 4 1 # [rn 70 5 1]) 1 =
     ([rn 50 (-2) 1] @ rn 60 0 5 # [rn 70 5 1], [] @ rn 60 0 5 # [])"
    using conjunct1[OF t[OF h]] unfolding scan5 last
    by (simp add: rn_def)
  note t4 = identify_serrated_pattern_threshold[of 1 "[rn 50 (-2) 1]" "rn 60 0 1" "rn 61 1 1"
      "rn 60 2 1" "rn 61 3 1" "rn 60 4 1" "[rn 70 5 1]"]
  have B: "identify_serrated_pattern
     ([rn 50 (-2) 1] @ rn 60 0 1 # rn 61 1 1 # rn 60 2 1 # rn 61 3 1 # [rn 70 5 1]) 1 =
     ([rn 50 (-2) 1] @ rn 60 0 1 # rn 61 1 1 # rn 60 2 1 # rn 61 3 1 # [rn 70 5 1], [] @ [])"
    using conjunct2[OF t4[OF h]] unfolding scan4 last
    by (simp add: rn_def)
  from A B show ?thesis by simp
qed

section \<open>Properties of the ladder loop\<close>

lemma ladder_while_stop:
  "\<not> (pitch (xs ! (off + 1)) + 1 = pitch (xs ! off) \<and>
      duration (xs ! (off + 1)) \<ge> mn \<and> duration (xs ! (off + 1)) \<le> mx \<and>
      off + 2 < length xs) \<Longrightarrow> ladder_while mn mx xs off = off"
  by (subst ladder_while.simps) auto

lemma ladder_while_step:
  "pitch (xs ! (off + 1)) + 1 = pitch (xs ! off) \<Longrightarrow>
   duration (xs ! (off + 1)) \<ge> mn \<Longrightarrow> duration (xs ! (off + 1)) \<le> mx \<Longrightarrow>
   off + 2 < length xs \<Longrightarrow> ladder_while mn mx xs off = ladder_while mn mx xs (off + 1)"
  by (subst ladder_while.simps) simp

lemma ladder_while_shift:
  "ladder_while mn mx (pre @ xs) (length pre + off) = length pre + ladder_while mn mx xs off"
proof (induction mn mx xs off rule: ladder_while.induct)
  case (1 mn mx xs off)
  let ?c = "pitch (xs ! (off + 1)) + 1 = pitch (xs ! off) \<and>
      duration (xs ! (off + 1)) \<ge> mn \<and> duration (xs ! (off + 1)) \<le> mx \<and>
      off + 2 < length xs"
  note facts = nth_append_Suc_plus nth_append_length_plus
  show ?case
  proof (cases ?c)
    case True
    then have a: "ladder_while mn mx xs off = ladder_while mn mx xs (off + 1)"
      by (intro ladder_while_step) simp_all
    from True have b: "ladder_while mn mx (pre @ xs) (length pre + off) =
        ladder_while mn mx (pre @ xs) (length pre + (off + 1))"
      using ladder_while_step[of "pre @ xs" "length pre + off" mn mx] by (simp add: facts)
    show ?thesis unfolding a b using "1.IH"[OF True] .
  next
    case False
    then have a: "ladder_while mn mx xs off = off" by (rule ladder_while_stop)
    from False have b: "ladder_while mn mx (pre @ xs) (length pre + off) = length pre + off"
      by (intro ladder_while_stop) (auto simp: facts)
    show ?thesis unfolding a b ..
  qed
qed

lemma ladder_body_zero:
  "pitch (xs ! n) = 0 \<Longrightarrow> ladder_body mn mx n (xs, sec) = (xs, sec)"
  by (simp add: ladder_body_def)

lemma ladder_body_run:
  assumes "pitch (xs ! n) \<noteq> 0" "off = ladder_while mn mx xs n"
  shows "ladder_body mn mx n (xs, sec) =
           (zero_pitch n (off + 1) xs,
            sec @ (if off - n + 1 \<ge> 5
                   then [(onset (xs ! n), onset (xs ! off) + duration (xs ! off))] else []))"
  using assms by (simp add: ladder_body_def Let_def)

lemma ladder_body_length: "length (fst (ladder_body mn mx n (xs, sec))) = length xs"
  by (cases "pitch (xs ! n) = 0") (simp_all add: ladder_body_zero ladder_body_run)

lemma ladder_body_shift:
  "ladder_body mn mx (length pre + n) (pre @ xs, sec) =
     (case ladder_body mn mx n (xs, sec) of (xs', sec') \<Rightarrow> (pre @ xs', sec'))"
proof (cases "pitch (xs ! n) = 0")
  case True
  then show ?thesis by (simp add: ladder_body_zero nth_append_length_plus)
next
  case False
  define off where "off = ladder_while mn mx xs n"
  have o: "length pre + off = ladder_while mn mx (pre @ xs) (length pre + n)"
    unfolding off_def by (rule ladder_while_shift[symmetric])
  have p: "pitch ((pre @ xs) ! (length pre + n)) \<noteq> 0"
    using False by (simp add: nth_append_length_plus)
  have z: "zero_pitch (length pre + n) (length pre + off + 1) (pre @ xs)
             = pre @ zero_pitch n (off + 1) xs"
    using zero_pitch_append[of pre n "off + 1" xs] by (simp add: add.assoc)
  have d: "length pre + off - (length pre + n) = off - n" by simp
  show ?thesis
    unfolding ladder_body_run[OF p o] ladder_body_run[OF False off_def] z d
    by (simp add: nth_append_length_plus)
qed

lemma fold_ladder_body_shift:
  "fold (ladder_body mn mx) (map (\<lambda>n. length pre + n) ns) (pre @ xs, sec) =
     (case fold (ladder_body mn mx) ns (xs, sec) of (xs', sec') \<Rightarrow> (pre @ xs', sec'))"
proof (induction ns arbitrary: xs sec)
  case Nil
  then show ?case by simp
next
  case (Cons n ns)
  obtain xs' sec' where b: "ladder_body mn mx n (xs, sec) = (xs', sec')"
    by (cases "ladder_body mn mx n (xs, sec)") auto
  have sh: "ladder_body mn mx (length pre + n) (pre @ xs, sec) = (pre @ xs', sec')"
    using ladder_body_shift[of mn mx pre n xs sec] b by simp
  from Cons.IH[of xs' sec'] show ?case by (simp add: sh b)
qed

lemma ladder_body_acc:
  "ladder_body mn mx n (xs, s0 @ sec) =
     (case ladder_body mn mx n (xs, sec) of (xs', sec') \<Rightarrow> (xs', s0 @ sec'))"
  by (cases "pitch (xs ! n) = 0") (simp_all add: ladder_body_zero ladder_body_run)

lemma fold_ladder_body_acc:
  "fold (ladder_body mn mx) ns (xs, s0 @ sec) =
     (case fold (ladder_body mn mx) ns (xs, sec) of (xs', sec') \<Rightarrow> (xs', s0 @ sec'))"
proof (induction ns arbitrary: xs sec)
  case Nil
  then show ?case by simp
next
  case (Cons n ns)
  obtain xs' sec' where b: "ladder_body mn mx n (xs, sec) = (xs', sec')"
    by (cases "ladder_body mn mx n (xs, sec)") auto
  then have "ladder_body mn mx n (xs, s0 @ sec) = (xs', s0 @ sec')"
    by (simp add: ladder_body_acc)
  with Cons.IH[of xs' sec'] b show ?case by simp
qed

lemma fold_ladder_body_zero:
  assumes "\<forall>n \<in> set ns. pitch (xs ! n) = 0"
  shows "fold (ladder_body mn mx) ns (xs, sec) = (xs, sec)"
  using assms
proof (induction ns)
  case Nil
  then show ?case by simp
next
  case (Cons n ns)
  have "ladder_body mn mx n (xs, sec) = (xs, sec)"
    by (rule ladder_body_zero) (use Cons.prems in simp)
  moreover have "fold (ladder_body mn mx) ns (xs, sec) = (xs, sec)"
    by (rule Cons.IH) (use Cons.prems in simp)
  ultimately show ?case by simp
qed

lemma ladder_suffix:
  assumes "\<forall>r \<in> set zs. pitch r = 0" and rest: "rest \<noteq> []"
  shows "fold (ladder_body mn mx) [0..<length (zs @ rest) - 1] (zs @ rest, s0) =
           (case fold (ladder_body mn mx) [0..<length rest - 1] (rest, []) of
              (xs', sec') \<Rightarrow> (zs @ xs', s0 @ sec'))"
proof -
  obtain xs' sec' where r: "fold (ladder_body mn mx) [0..<length rest - 1] (rest, []) = (xs', sec')"
    by (cases "fold (ladder_body mn mx) [0..<length rest - 1] (rest, [])") auto
  have "length (zs @ rest) - 1 = length zs + (length rest - 1)"
    using rest by (cases rest) simp_all
  then have split: "[0..<length (zs @ rest) - 1] =
      [0..<length zs] @ map (\<lambda>n. length zs + n) [0..<length rest - 1]"
    by (simp only: upt_split_shift)
  have z: "\<forall>n \<in> set [0..<length zs]. pitch ((zs @ rest) ! n) = 0"
    using assms by (simp add: nth_append)
  have 1: "fold (ladder_body mn mx) [0..<length zs] (zs @ rest, s0) = (zs @ rest, s0)"
    by (rule fold_ladder_body_zero[OF z])
  have 2: "fold (ladder_body mn mx) [0..<length rest - 1] (rest, s0) = (xs', s0 @ sec')"
    using fold_ladder_body_acc[of mn mx "[0..<length rest - 1]" rest s0 "[]"] r by simp
  have 3: "fold (ladder_body mn mx) (map (\<lambda>n. length zs + n) [0..<length rest - 1]) (zs @ rest, s0)
             = (zs @ xs', s0 @ sec')"
    using fold_ladder_body_shift[of mn mx zs "[0..<length rest - 1]" rest s0] 2 by simp
  show ?thesis
    unfolding split fold_append comp_def 1 3 r by simp
qed

lemma ladder_nth:
  "ladder mn mx run \<Longrightarrow> i + 1 < length run \<Longrightarrow>
   pitch (run ! (i + 1)) + 1 = pitch (run ! i) \<and>
   mn \<le> duration (run ! (i + 1)) \<and> duration (run ! (i + 1)) \<le> mx"
proof (induction mn mx run arbitrary: i rule: ladder.induct)
  case (1 mn mx a b xs)
  show ?case
  proof (cases i)
    case 0
    with "1.prems" show ?thesis by simp
  next
    case (Suc j)
    with "1.prems" "1.IH"[of j] show ?thesis by simp
  qed
qed simp_all

lemma ladder_while_run:
  assumes lad: "ladder mn mx run" and rest: "rest \<noteq> []"
    and stop: "length rest = 1 \<or>
       \<not> (pitch (hd rest) + 1 = pitch (last run) \<and>
          mn \<le> duration (hd rest) \<and> duration (hd rest) \<le> mx)"
    and off: "off < length run"
  shows "ladder_while mn mx (run @ rest) off = length run - 1"
  using off
proof (induction "length run - 1 - off" arbitrary: off)
  case 0
  then have o: "off = length run - 1" by simp
  have ne: "run \<noteq> []" using "0.prems" by auto
  have l: "(run @ rest) ! off = last run"
    using 0 o ne by (simp add: nth_append last_conv_nth)
  have h: "(run @ rest) ! (off + 1) = hd rest"
    using 0 o rest ne by (simp add: nth_append hd_conv_nth)
  have "ladder_while mn mx (run @ rest) off = off"
  proof (rule ladder_while_stop)
    show "\<not> (pitch ((run @ rest) ! (off + 1)) + 1 = pitch ((run @ rest) ! off) \<and>
      duration ((run @ rest) ! (off + 1)) \<ge> mn \<and> duration ((run @ rest) ! (off + 1)) \<le> mx \<and>
      off + 2 < length (run @ rest))"
      unfolding l h using stop o 0 by auto
  qed
  then show ?case using o by simp
next
  case (Suc d)
  then have lt: "off + 1 < length run" by simp
  from ladder_nth[OF lad lt] have
    "pitch ((run @ rest) ! (off + 1)) + 1 = pitch ((run @ rest) ! off)"
    "duration ((run @ rest) ! (off + 1)) \<ge> mn" "duration ((run @ rest) ! (off + 1)) \<le> mx"
    using lt by (simp_all add: nth_append)
  moreover have "off + 2 < length (run @ rest)" using lt rest by (cases rest) simp_all
  ultimately have "ladder_while mn mx (run @ rest) off = ladder_while mn mx (run @ rest) (off + 1)"
    by (rule ladder_while_step)
  also have "\<dots> = length run - 1"
    by (rule Suc.hyps(1)) (use Suc.hyps(2) lt in simp_all)
  finally show ?case .
qed

lemma long_slide_sec_run:
  assumes lad: "ladder mn mx run" and run: "run \<noteq> []" and p0: "pitch (hd run) \<noteq> 0"
    and rest: "rest \<noteq> []"
    and stop: "length rest = 1 \<or>
       \<not> (pitch (hd rest) + 1 = pitch (last run) \<and>
          mn \<le> duration (hd rest) \<and> duration (hd rest) \<le> mx)"
  shows "long_slide_sec (run @ rest) mn mx =
           (if length run \<ge> 5
            then [(onset (hd run), onset (last run) + duration (last run))] else [])
           @ long_slide_sec rest mn mx"
proof -
  let ?xs = "run @ rest"
  let ?z = "map (\<lambda>r. r\<lparr>pitch := 0\<rparr>) run"
  let ?new = "if length run \<ge> 5
            then [(onset (hd run), onset (last run) + duration (last run))] else []"
  obtain xs' sec' where r: "fold (ladder_body mn mx) [0..<length rest - 1] (rest, []) = (xs', sec')"
    by (cases "fold (ladder_body mn mx) [0..<length rest - 1] (rest, [])") auto
  have w: "length run - 1 = ladder_while mn mx ?xs 0"
    using ladder_while_run[OF lad rest stop, of 0] run by simp
  have x0: "?xs ! 0 = hd run" using run by (simp add: nth_append hd_conv_nth)
  have xl: "?xs ! (length run - 1) = last run" using run by (simp add: nth_append last_conv_nth)
  have l1: "length run - 1 + 1 = length run" using run by (cases run) simp_all
  have p0': "pitch (?xs ! 0) \<noteq> 0" using p0 x0 by simp
  have c: "(5 \<le> length run - 1 - 0 + 1) = (5 \<le> length run)"
    using run by (cases run) simp_all
  have body0: "ladder_body mn mx 0 (?xs, []) =
           (zero_pitch 0 (length run - 1 + 1) ?xs,
            [] @ (if length run - 1 - 0 + 1 \<ge> 5
                   then [(onset (?xs ! 0),
                          onset (?xs ! (length run - 1)) + duration (?xs ! (length run - 1)))]
                   else []))"
    by (rule ladder_body_run[OF p0' w])
  have body: "ladder_body mn mx 0 (?xs, []) = (?z @ rest, ?new)"
    unfolding body0 x0 xl l1 c zero_pitch_prefix by simp
  have pos: "0 < length ?xs - 1"
    using run rest by (cases run; cases rest) simp_all
  have N: "[0..<length ?xs - 1] = 0 # [Suc 0..<length ?xs - 1]"
    using pos by (rule upt_conv_Cons)
  have N': "[0..<length (?z @ rest) - 1] = 0 # [Suc 0..<length ?xs - 1]"
    using N by simp
  have z0: "pitch ((?z @ rest) ! 0) = 0"
    using run by (cases run) simp_all
  have "fold (ladder_body mn mx) [0..<length ?xs - 1] (?xs, []) =
        fold (ladder_body mn mx) [Suc 0..<length ?xs - 1] (?z @ rest, ?new)"
    unfolding N by (simp add: body)
  also have "\<dots> = fold (ladder_body mn mx) [0..<length (?z @ rest) - 1] (?z @ rest, ?new)"
    unfolding N' by (simp add: ladder_body_zero[OF z0])
  also have "\<dots> = (?z @ xs', ?new @ sec')"
    using ladder_suffix[of ?z rest mn mx ?new] rest r by simp
  finally have F: "fold (ladder_body mn mx) [0..<length ?xs - 1] (?xs, []) =
      (?z @ xs', ?new @ sec')" .
  show ?thesis unfolding long_slide_sec_def F r by simp
qed

lemma ladder_while_bound:
  assumes "off \<le> j"
    and "\<not> (pitch (ys ! (j + 1)) + 1 = pitch (ys ! j) \<and>
            mn \<le> duration (ys ! (j + 1)) \<and> duration (ys ! (j + 1)) \<le> mx)"
  shows "ladder_while mn mx ys off \<le> j"
  using assms
proof (induction mn mx ys off rule: ladder_while.induct)
  case (1 mn mx ys off)
  let ?c = "pitch (ys ! (off + 1)) + 1 = pitch (ys ! off) \<and>
      duration (ys ! (off + 1)) \<ge> mn \<and> duration (ys ! (off + 1)) \<le> mx \<and>
      off + 2 < length ys"
  show ?case
  proof (cases ?c)
    case True
    then have "off \<noteq> j" using "1.prems"(2) by auto
    then have le: "off + 1 \<le> j" using "1.prems"(1) by simp
    have "ladder_while mn mx ys off = ladder_while mn mx ys (off + 1)"
      using True by (intro ladder_while_step) simp_all
    also have "\<dots> \<le> j" by (rule "1.IH"[OF True le "1.prems"(2)])
    finally show ?thesis .
  next
    case False
    then have "ladder_while mn mx ys off = off" by (rule ladder_while_stop)
    then show ?thesis using "1.prems"(1) by simp
  qed
qed

lemma ladder_while_ge: "off \<le> ladder_while mn mx ys off"
proof (induction mn mx ys off rule: ladder_while.induct)
  case (1 mn mx ys off)
  let ?c = "pitch (ys ! (off + 1)) + 1 = pitch (ys ! off) \<and>
      duration (ys ! (off + 1)) \<ge> mn \<and> duration (ys ! (off + 1)) \<le> mx \<and>
      off + 2 < length ys"
  show ?case
  proof (cases ?c)
    case True
    have "ladder_while mn mx ys off = ladder_while mn mx ys (off + 1)"
      using True by (intro ladder_while_step) simp_all
    with "1.IH"[OF True] show ?thesis by simp
  next
    case False
    then have "ladder_while mn mx ys off = off" by (rule ladder_while_stop)
    then show ?thesis by simp
  qed
qed

lemma ladder_body_untouched:
  assumes inv: "untouched_from k n orig ys"
    and n: "n < k" and k: "k < length orig" "0 < k"
    and unlinked: "\<not> (pitch (orig ! k) + 1 = pitch (orig ! (k - 1)) \<and>
            mn \<le> duration (orig ! k) \<and> duration (orig ! k) \<le> mx)"
  shows "untouched_from k (n + 1) orig (fst (ladder_body mn mx n (ys, sec)))"
proof -
  from inv obtain z where len: "length ys = length orig" and z: "z \<le> k"
    and same: "\<And>i. z \<le> i \<Longrightarrow> i < length ys \<Longrightarrow> ys ! i = orig ! i"
    and zero: "\<And>i. n \<le> i \<Longrightarrow> i < z \<Longrightarrow> pitch (ys ! i) = 0"
    unfolding untouched_from_def by blast
  have keep: "untouched_from k (n + 1) orig ys"
    unfolding untouched_from_def using len z same zero by (intro conjI exI[of _ z]) auto
  show ?thesis
  proof (cases "pitch (ys ! n) = 0")
    case True
    then show ?thesis using keep by (simp add: ladder_body_zero)
  next
    case nz: False
    then have zn: "z \<le> n" using zero[of n] by (meson not_le order_refl)
    define off where "off = ladder_while mn mx ys n"
    have yk: "ys ! k = orig ! k" using same[of k] z k len by simp
    have yk1: "ys ! (k - 1) = orig ! (k - 1)"
      using same[of "k - 1"] zn n k len by simp
    have ul: "\<not> (pitch (ys ! ((k - 1) + 1)) + 1 = pitch (ys ! (k - 1)) \<and>
            mn \<le> duration (ys ! ((k - 1) + 1)) \<and> duration (ys ! ((k - 1) + 1)) \<le> mx)"
      using unlinked yk yk1 k by simp
    have offk: "off \<le> k - 1"
      unfolding off_def by (rule ladder_while_bound[OF _ ul]) (use n in simp)
    have offn: "n \<le> off"
      unfolding off_def by (rule ladder_while_ge)
    have body: "fst (ladder_body mn mx n (ys, sec)) = zero_pitch n (off + 1) ys"
      by (simp add: ladder_body_run[OF nz off_def])
    show ?thesis
      unfolding body untouched_from_def
    proof (intro conjI exI[of _ "off + 1"] allI impI)
      show "length (zero_pitch n (off + 1) ys) = length orig" using len by simp
      show "off + 1 \<le> k" using offk k by simp
    next
      fix i assume "off + 1 \<le> i \<and> i < length (zero_pitch n (off + 1) ys)"
      then have i: "off + 1 \<le> i" "i < length ys" by simp_all
      then have "zero_pitch n (off + 1) ys ! i = ys ! i" by (simp add: nth_zero_pitch)
      also have "\<dots> = orig ! i" using same[of i] i zn offn by simp
      finally show "zero_pitch n (off + 1) ys ! i = orig ! i" .
    next
      fix i assume "n + 1 \<le> i \<and> i < off + 1"
      then have i: "n \<le> i" "i < off + 1" by simp_all
      have "i < length ys" using i offk k len by simp
      then show "pitch (zero_pitch n (off + 1) ys ! i) = 0"
        using i by (simp add: nth_zero_pitch)
    qed
  qed
qed

lemma fold_ladder_untouched:
  assumes inv: "untouched_from k n orig ys"
    and n: "n \<le> k" and k: "k < length orig" "0 < k"
    and unlinked: "\<not> (pitch (orig ! k) + 1 = pitch (orig ! (k - 1)) \<and>
            mn \<le> duration (orig ! k) \<and> duration (orig ! k) \<le> mx)"
  shows "untouched_from k k orig (fst (fold (ladder_body mn mx) [n..<k] (ys, sec)))"
  using inv n
proof (induction "k - n" arbitrary: n ys sec)
  case 0
  then show ?case by simp
next
  case (Suc d)
  then have lt: "n < k" by simp
  obtain ys' sec' where b: "ladder_body mn mx n (ys, sec) = (ys', sec')"
    by (cases "ladder_body mn mx n (ys, sec)") auto
  have inv': "untouched_from k (n + 1) orig ys'"
    using ladder_body_untouched[OF Suc.prems(1) lt k unlinked, of sec] b by simp
  have "untouched_from k k orig (fst (fold (ladder_body mn mx) [n + 1..<k] (ys', sec')))"
    by (rule Suc.hyps(1)) (use Suc.hyps(2) lt inv' in simp_all)
  then show ?case using lt b by (simp add: upt_conv_Cons)
qed

lemma ladder_junction:
  assumes xs: "xs \<noteq> []"
    and unlinked: "pre = [] \<or>
       \<not> (pitch (hd xs) + 1 = pitch (last pre) \<and>
          mn \<le> duration (hd xs) \<and> duration (hd xs) \<le> mx)"
  shows "long_slide_sec (pre @ xs) mn mx =
           ladder_scan mn mx (length pre) (pre @ xs) @ long_slide_sec xs mn mx"
proof -
  let ?k = "length pre"
  let ?orig = "pre @ xs"
  obtain ys s0 where f: "fold (ladder_body mn mx) [0..<?k] (?orig, []) = (ys, s0)"
    by (cases "fold (ladder_body mn mx) [0..<?k] (?orig, [])") auto
  obtain xs' sec' where r: "fold (ladder_body mn mx) [0..<length xs - 1] (xs, []) = (xs', sec')"
    by (cases "fold (ladder_body mn mx) [0..<length xs - 1] (xs, [])") auto
  have u: "untouched_from ?k ?k ?orig ys"
  proof (cases "pre = []")
    case True
    with f show ?thesis by (simp add: untouched_from_def)
  next
    case False
    have o1: "?orig ! ?k = hd xs" using xs by (simp add: hd_conv_nth nth_append)
    have o2: "?orig ! (?k - 1) = last pre" using False by (simp add: nth_append last_conv_nth)
    have ul: "\<not> (pitch (?orig ! ?k) + 1 = pitch (?orig ! (?k - 1)) \<and>
            mn \<le> duration (?orig ! ?k) \<and> duration (?orig ! ?k) \<le> mx)"
      unfolding o1 o2 using unlinked False by simp
    have i0: "untouched_from ?k 0 ?orig ?orig"
      unfolding untouched_from_def by (intro conjI exI[of _ 0]) simp_all
    have "untouched_from ?k ?k ?orig (fst (fold (ladder_body mn mx) [0..<?k] (?orig, [])))"
      by (rule fold_ladder_untouched[OF i0 _ _ _ ul]) (use xs False in simp_all)
    with f show ?thesis by simp
  qed
  then have len: "length ys = length ?orig"
    and same: "\<And>i. ?k \<le> i \<Longrightarrow> i < length ys \<Longrightarrow> ys ! i = ?orig ! i"
    unfolding untouched_from_def by auto
  have ys: "ys = take ?k ys @ xs"
  proof (rule nth_equalityI)
    show "length ys = length (take ?k ys @ xs)" using len by simp
  next
    fix i assume i: "i < length ys"
    show "ys ! i = (take ?k ys @ xs) ! i"
    proof (cases "i < ?k")
      case True
      then show ?thesis using len by (simp add: nth_append)
    next
      case False
      then have "ys ! i = ?orig ! i" using same i by simp
      then show ?thesis using False len by (simp add: nth_append)
    qed
  qed
  define pre' where "pre' = take ?k ys"
  have lp: "length pre' = ?k" unfolding pre'_def using len by simp
  have ys': "ys = pre' @ xs" using ys pre'_def by simp
  have 2: "fold (ladder_body mn mx) [0..<length xs - 1] (xs, s0) = (xs', s0 @ sec')"
    using fold_ladder_body_acc[of mn mx "[0..<length xs - 1]" xs s0 "[]"] r by simp
  have 3: "fold (ladder_body mn mx) (map (\<lambda>n. length pre' + n) [0..<length xs - 1]) (pre' @ xs, s0)
             = (pre' @ xs', s0 @ sec')"
    using fold_ladder_body_shift[of mn mx pre' "[0..<length xs - 1]" xs s0] 2 by simp
  have "length ?orig - 1 = ?k + (length xs - 1)" using xs by (cases xs) simp_all
  then have split: "[0..<length ?orig - 1] = [0..<?k] @ map (\<lambda>n. ?k + n) [0..<length xs - 1]"
    by (simp only: upt_split_shift)
  have F: "fold (ladder_body mn mx) [0..<length ?orig - 1] (?orig, []) = (pre' @ xs', s0 @ sec')"
    unfolding split fold_append comp_def f ys' using 3 lp by simp
  show ?thesis
    unfolding long_slide_sec_def ladder_scan_def F f r by simp
qed

text \<open>
  C4 (as amended): let \<open>run\<close> be a ladder (each note one step below the one before it, with a
  duration within the two bounds) that starts at a note of non-zero pitch, is not linked
  to the note before it, and is followed by at least one more note of the array that does
  not continue it (or is the array's last note).  Then the loop registers for it the
  interval from the first note's onset to the last note's offset if it has at least 5
  notes, and nothing if it has fewer (so nothing for exactly 4); the notes after the
  ladder are processed as an array of their own, and what the scan of the notes before it
  has registered stays in front.
\<close>

theorem long_slide_ladder_threshold:
  assumes lad: "ladder mn mx run" and run: "run \<noteq> []" and p0: "pitch (hd run) \<noteq> 0"
    and junction: "pre = [] \<or>
       \<not> (pitch (hd run) + 1 = pitch (last pre) \<and>
          mn \<le> duration (hd run) \<and> duration (hd run) \<le> mx)"
    and rest: "rest \<noteq> []"
    and stop: "length rest = 1 \<or>
       \<not> (pitch (hd rest) + 1 = pitch (last run) \<and>
          mn \<le> duration (hd rest) \<and> duration (hd rest) \<le> mx)"
  shows "long_slide_sec (pre @ run @ rest) mn mx =
           ladder_scan mn mx (length pre) (pre @ run @ rest)
           @ (if length run \<ge> 5
              then [(onset (hd run), onset (last run) + duration (last run))] else [])
           @ long_slide_sec rest mn mx"
proof -
  have ne: "run @ rest \<noteq> []" using run by simp
  have j: "pre = [] \<or>
       \<not> (pitch (hd (run @ rest)) + 1 = pitch (last pre) \<and>
          mn \<le> duration (hd (run @ rest)) \<and> duration (hd (run @ rest)) \<le> mx)"
    using junction run by simp
  show ?thesis
    unfolding ladder_junction[OF ne j] long_slide_sec_run[OF lad run p0 rest stop] ..
qed

text \<open>
  The claim as it was stated fails on a ladder of 5 notes that ends the array: the loop
  goes on only while \<^verbatim>\<open>offset_note+2<note.shape[0]\<close>, so the last note is never part of a
  ladder and nothing is registered.
\<close>

theorem long_slide_ladder_counterexample:
  "long_slide_sec
     [rn 65 0 (1/20), rn 64 (1/20) (1/20), rn 63 (2/20) (1/20), rn 62 (3/20) (1/20),
      rn 61 (4/20) (1/20)] (15/1000) (9/100) = []"
proof -
  have "long_slide_sec
     ([rn 65 0 (1/20), rn 64 (1/20) (1/20), rn 63 (2/20) (1/20), rn 62 (3/20) (1/20)]
      @ [rn 61 (4/20) (1/20)]) (15/1000) (9/100) =
     (if length [rn 65 0 (1/20), rn 64 (1/20) (1/20), rn 63 (2/20) (1/20), rn 62 (3/20) (1/20)] \<ge> 5
      then [(onset (hd [rn 65 0 (1/20), rn 64 (1/20) (1/20), rn 63 (2/20) (1/20), rn 62 (3/20) (1/20)]),
             onset (last [rn 65 0 (1/20), rn 64 (1/20) (1/20), rn 63 (2/20) (1/20), rn 62 (3/20) (1/20)])
             + duration (last [rn 65 0 (1/20), rn 64 (1/20) (1/20), rn 63 (2/20) (1/20), rn 62 (3/20) (1/20)]))]
      else [])
     @ long_slide_sec [rn 61 (4/20) (1/20)] (15/1000) (9/100)"
    by (rule long_slide_sec_run) (simp_all add: rn_def)
  then show ?thesis by (simp add: long_slide_sec_def)
qed

theorem long_slide_ladder_threshold_witness:
  "long_slide_sec
     ([rn 70 0 1] @
      [rn 65 1 (1/20), rn 64 (21/20) (1/20), rn 63 (22/20) (1/20), rn 62 (23/20) (1/20),
       rn 61 (24/20) (1/20)] @ [rn 50 2 1]) (15/1000) (9/100) = [(1, 5/4)] \<and>
   long_slide_sec
     ([rn 70 0 1] @
      [rn 65 1 (1/20), rn 64 (21/20) (1/20), rn 63 (22/20) (1/20), rn 62 (23/20) (1/20)]
      @ [rn 50 2 1]) (15/1000) (9/100) = []"
proof -
  let ?r5 = "[rn 65 1 (1/20), rn 64 (21/20) (1/20), rn 63 (22/20) (1/20), rn 62 (23/20) (1/20),
       rn 61 (24/20) (1/20)]"
  let ?r4 = "[rn 65 1 (1/20), rn 64 (21/20) (1/20), rn 63 (22/20) (1/20), rn 62 (23/20) (1/20)]"
  have last: "long_slide_sec [rn 50 2 1] (15/1000) (9/100) = []"
    by (simp add: long_slide_sec_def)
  have w: "ladder_while (15/1000) (9/100) ([rn 70 0 1] @ r # rs) 0 = 0" if "pitch r = 65" for r rs
    by (rule ladder_while_stop) (simp add: rn_def that)
  have scan: "ladder_scan (15/1000) (9/100) (length [rn 70 0 1]) ([rn 70 0 1] @ r # rs) = []"
    if "pitch r = 65" for r rs
    using w[OF that, of rs] by (simp add: ladder_scan_def ladder_body_def rn_def)
  have A: "long_slide_sec ([rn 70 0 1] @ ?r5 @ [rn 50 2 1]) (15/1000) (9/100) = [(1, 5/4)]"
    using long_slide_ladder_threshold[of "15/1000" "9/100" ?r5 "[rn 70 0 1]" "[rn 50 2 1]"]
      scan[of "rn 65 1 (1/20)"] last
    by (simp add: rn_def)
  have B: "long_slide_sec ([rn 70 0 1] @ ?r4 @ [rn 50 2 1]) (15/1000) (9/100) = []"
    using long_slide_ladder_threshold[of "15/1000" "9/100" ?r4 "[rn 70 0 1]" "[rn 50 2 1]"]
      scan[of "rn 65 1 (1/20)"] last
    by (simp add: rn_def)
  from A B show ?thesis ..
qed

section \<open>Properties of \<^verbatim>\<open>long_CAD_pattern_detection\<close>\<close>

lemma cad_note_loop_end: "length xs \<le> n \<Longrightarrow> cad_note_loop xs p pat n s = s"
  by (subst cad_note_loop.simps) simp

lemma cad_note_loop_skip_step:
  "n < length xs \<Longrightarrow> \<not> in_span (fst pat) (xs ! n) \<Longrightarrow>
   cad_note_loop xs p pat n s = cad_note_loop xs p pat (n + 1) s"
  by (subst cad_note_loop.simps) (auto simp: in_span_def Let_def)

lemma cad_note_loop_hit:
  "n + 3 < length xs \<Longrightarrow> in_span (fst pat) (xs ! n) \<Longrightarrow>
   cad_note_loop xs p pat n s =
     cad_note_loop xs p pat (n + 1) (fold (cad_m_body xs p pat n) [n + 2..<n + 4] s)"
  by (subst cad_note_loop.simps) (auto simp: in_span_def Let_def)

lemma cad_note_loop_break:
  "n < length xs \<Longrightarrow> \<not> n + 3 < length xs \<Longrightarrow> in_span (fst pat) (xs ! n) \<Longrightarrow>
   cad_note_loop xs p pat n s = s"
  by (subst cad_note_loop.simps) (auto simp: in_span_def Let_def)

lemma cad_note_loop_skip:
  assumes "k \<le> m" "m \<le> length xs"
    and "\<forall>j. k \<le> j \<and> j < m \<longrightarrow> \<not> in_span (fst pat) (xs ! j)"
  shows "cad_note_loop xs p pat k s = cad_note_loop xs p pat m s"
  using assms
proof (induction "m - k" arbitrary: k)
  case 0
  then show ?case by simp
next
  case (Suc d)
  then have lt: "k < m" by simp
  then have "cad_note_loop xs p pat k s = cad_note_loop xs p pat (k + 1) s"
    using Suc.prems by (intro cad_note_loop_skip_step) auto
  also have "\<dots> = cad_note_loop xs p pat m s"
    by (rule Suc.hyps(1)) (use Suc.hyps(2) Suc.prems lt in auto)
  finally show ?case .
qed

lemma cad_m_body_miss:
  "\<not> in_span (snd pat) (xs ! m) \<Longrightarrow> cad_m_body xs p pat n m s = s"
  by (cases s) (auto simp: cad_m_body_def in_span_def Let_def)

lemma cad_m_body_hit:
  "in_span (snd pat) (xs ! m) \<Longrightarrow> 2 \<le> m - n \<Longrightarrow> m - n \<le> 3 \<Longrightarrow>
   \<bar>pitch (xs ! n) - pitch (xs ! m)\<bar> \<le> 3 \<Longrightarrow>
   cad_m_body xs p pat n m (ns, idx) =
     (ns @ [\<lparr>pitch = pitch (xs ! n), onset = onset (xs ! n),
             duration = duration (xs ! n) + duration (xs ! (n + 1)) + duration (xs ! (n + 2))\<rparr>],
      idx @ [p])"
  by (simp add: cad_m_body_def in_span_def Let_def)

lemma upt_two: "[n + 2..<n + 4] = [n + 2, n + 3]"
  by (simp add: upt_conv_Cons eval_nat_numeral)

text \<open>One pattern whose start lies in the span of row \<open>n\<close> only.\<close>

lemma cad_single_pattern:
  assumes n: "n < length xs"
    and start: "in_span (fst pat) (xs ! n)"
    and uniq: "\<forall>k < length xs. k \<noteq> n \<longrightarrow> \<not> in_span (fst pat) (xs ! k)"
  shows "cad_note_loop xs p pat 0 s =
           (if n + 3 < length xs then fold (cad_m_body xs p pat n) [n + 2..<n + 4] s else s)"
proof -
  have 1: "cad_note_loop xs p pat 0 s = cad_note_loop xs p pat n s"
    by (rule cad_note_loop_skip) (use n uniq in auto)
  show ?thesis
  proof (cases "n + 3 < length xs")
    case True
    let ?s = "fold (cad_m_body xs p pat n) [n + 2..<n + 4] s"
    have "cad_note_loop xs p pat n s = cad_note_loop xs p pat (n + 1) ?s"
      by (rule cad_note_loop_hit[OF True start])
    also have "\<dots> = cad_note_loop xs p pat (length xs) ?s"
      by (rule cad_note_loop_skip) (use n uniq in auto)
    also have "\<dots> = ?s" by (rule cad_note_loop_end) simp
    finally show ?thesis using 1 True by simp
  next
    case False
    then show ?thesis using 1 cad_note_loop_break[OF n False start] by simp
  qed
qed

text \<open>
  C5 (as amended): let one CAD interval \<open>(s, e)\<close> start in the span of row \<open>n\<close> of the note
  table and of no other row.  If at least three more rows follow row \<open>n\<close>, the pitches of
  rows \<open>n\<close>, \<open>n+1\<close>, \<open>n+2\<close> ascend by exactly one semitone per step, and \<open>e\<close> lies in the
  span of row \<open>n+2\<close> and not in that of row \<open>n+3\<close>, then exactly one merged note is
  produced: its pitch and onset are those of row \<open>n\<close> and its duration is the sum of the
  three rows' durations (and the interval is no longer a short pattern).  If \<open>e\<close> lies
  neither in the span of row \<open>n+2\<close> nor in that of row \<open>n+3\<close>, as when the row that
  contains it is 4 positions after row \<open>n\<close>, no merged note is produced and the interval
  stays a short pattern.
\<close>

theorem long_CAD_pattern_detection_bounds:
  assumes n: "n < length xs"
    and start: "in_span s (xs ! n)"
    and uniq: "\<forall>k < length xs. k \<noteq> n \<longrightarrow> \<not> in_span s (xs ! k)"
  shows "(n + 3 < length xs \<and> pitch (xs ! (n + 1)) = pitch (xs ! n) + 1 \<and>
          pitch (xs ! (n + 2)) = pitch (xs ! (n + 1)) + 1 \<and>
          in_span e (xs ! (n + 2)) \<and> \<not> in_span e (xs ! (n + 3)) \<longrightarrow>
          long_CAD_pattern_detection xs [(s, e)] =
            ([\<lparr>pitch = pitch (xs ! n), onset = onset (xs ! n),
               duration = duration (xs ! n) + duration (xs ! (n + 1)) + duration (xs ! (n + 2))\<rparr>],
             [])) \<and>
         (\<not> in_span e (xs ! (n + 2)) \<and> \<not> in_span e (xs ! (n + 3)) \<longrightarrow>
          long_CAD_pattern_detection xs [(s, e)] = ([], [(s, e)]))"
proof (intro conjI impI)
  assume a: "n + 3 < length xs \<and> pitch (xs ! (n + 1)) = pitch (xs ! n) + 1 \<and>
          pitch (xs ! (n + 2)) = pitch (xs ! (n + 1)) + 1 \<and>
          in_span e (xs ! (n + 2)) \<and> \<not> in_span e (xs ! (n + 3))"
  have l: "cad_note_loop xs 0 (s, e) 0 ([], []) =
      fold (cad_m_body xs 0 (s, e) n) [n + 2..<n + 4] ([], [])"
    using cad_single_pattern[of n xs "(s, e)" 0 "([], [])"] n start uniq a by simp
  have h: "cad_m_body xs 0 (s, e) n (n + 2) ([], []) =
      ([] @ [\<lparr>pitch = pitch (xs ! n), onset = onset (xs ! n),
             duration = duration (xs ! n) + duration (xs ! (n + 1)) + duration (xs ! (n + 2))\<rparr>],
      [] @ [0])"
    by (rule cad_m_body_hit) (use a in simp_all)
  have m: "cad_m_body xs 0 (s, e) n (n + 3) st = st" for st
    by (rule cad_m_body_miss) (use a in simp)
  show "long_CAD_pattern_detection xs [(s, e)] =
            ([\<lparr>pitch = pitch (xs ! n), onset = onset (xs ! n),
               duration = duration (xs ! n) + duration (xs ! (n + 1)) + duration (xs ! (n + 2))\<rparr>],
             [])"
  proof -
    have F: "fold (\<lambda>p. cad_note_loop xs p ([(s, e)] ! p) 0) [0..<length [(s, e)]] ([], [])
               = cad_note_loop xs 0 (s, e) 0 ([], [])" by simp
    have G: "cad_note_loop xs 0 (s, e) 0 ([], []) =
      ([\<lparr>pitch = pitch (xs ! n), onset = onset (xs ! n),
         duration = duration (xs ! n) + duration (xs ! (n + 1)) + duration (xs ! (n + 2))\<rparr>], [0])"
      unfolding l upt_two by (simp only: fold_simps h m append_Nil)
    show ?thesis
      unfolding long_CAD_pattern_detection_def F G by (simp add: np_delete_def)
  qed
next
  assume a: "\<not> in_span e (xs ! (n + 2)) \<and> \<not> in_span e (xs ! (n + 3))"
  have m: "cad_m_body xs 0 (s, e) n (n + 2) st = st" "cad_m_body xs 0 (s, e) n (n + 3) st = st" for st
    by (rule cad_m_body_miss; use a in simp)+
  have f: "fold (cad_m_body xs 0 (s, e) n) [n + 2..<n + 4] ([], []) = ([], [])"
    unfolding upt_two by (simp only: fold_simps m)
  have l: "cad_note_loop xs 0 (s, e) 0 ([], []) = ([], [])"
    using cad_single_pattern[of n xs "(s, e)" 0 "([], [])"] n start uniq
    unfolding f by simp
  have F: "fold (\<lambda>p. cad_note_loop xs p ([(s, e)] ! p) 0) [0..<length [(s, e)]] ([], [])
               = cad_note_loop xs 0 (s, e) 0 ([], [])" by simp
  show "long_CAD_pattern_detection xs [(s, e)] = ([], [(s, e)])"
    unfolding long_CAD_pattern_detection_def F l by (simp add: np_delete_def)
qed

text \<open>
  The claim as it was stated fails when the three notes end the table: the loop over the
  notes breaks under \<^verbatim>\<open>n+3>=pseudo_note.shape[0]\<close>, so a run of three notes with no fourth
  note after it produces no merged note.
\<close>

theorem long_CAD_pattern_detection_counterexample:
  "long_CAD_pattern_detection [rn 60 0 1, rn 61 1 1, rn 62 2 1] [(1/2, 5/2)] = ([], [(1/2, 5/2)])"
  by (simp add: long_CAD_pattern_detection_def cad_note_loop.simps rn_def np_delete_def)

theorem long_CAD_pattern_detection_bounds_witness:
  "long_CAD_pattern_detection [rn 60 0 1, rn 61 1 1, rn 62 2 1, rn 70 3 1] [(1/2, 5/2)]
     = ([rn 60 0 3], []) \<and>
   long_CAD_pattern_detection [rn 60 0 1, rn 61 1 1, rn 62 2 1, rn 63 3 1, rn 64 4 1] [(1/2, 9/2)]
     = ([], [(1/2, 9/2)])"
proof
  let ?xs = "[rn 60 0 1, rn 61 1 1, rn 62 2 1, rn 70 3 1]"
  have u: "\<forall>k < length ?xs. k \<noteq> 0 \<longrightarrow> \<not> in_span (1/2) (?xs ! k)"
    by (simp add: in_span_def rn_def nth_Cons' less_Suc_eq eval_nat_numeral)
  have s: "in_span (1/2) (?xs ! 0)" by (simp add: in_span_def rn_def)
  show "long_CAD_pattern_detection ?xs [(1/2, 5/2)] = ([rn 60 0 3], [])"
    using conjunct1[OF long_CAD_pattern_detection_bounds[of 0 ?xs "1/2" "5/2", OF _ s u]]
    by (simp add: in_span_def rn_def eval_nat_numeral)
next
  let ?xs = "[rn 60 0 1, rn 61 1 1, rn 62 2 1, rn 63 3 1, rn 64 4 1]"
  have u: "\<forall>k < length ?xs. k \<noteq> 0 \<longrightarrow> \<not> in_span (1/2) (?xs ! k)"
    by (simp add: in_span_def rn_def nth_Cons' less_Suc_eq eval_nat_numeral)
  have s: "in_span (1/2) (?xs ! 0)" by (simp add: in_span_def rn_def)
  show "long_CAD_pattern_detection ?xs [(1/2, 9/2)] = ([], [(1/2, 9/2)])"
    using conjunct2[OF long_CAD_pattern_detection_bounds[of 0 ?xs "1/2" "9/2", OF _ s u]]
    by (simp add: in_span_def rn_def eval_nat_numeral)
qed

section \<open>Properties of \<^verbatim>\<open>merge_and_update_prebend_bend_release\<close>\<close>




lemma length_zero_candidates [simp]: "length (zero_candidates a b result) = length result"
  by (simp add: zero_candidates_def)



lemma last_of_Nil [simp]: "last_of [] d = d"
  by (simp add: last_of_def)

lemma last_of_Cons [simp]: "last_of (x # xs) d = last_of xs x"
  by (simp add: last_of_def)








section \<open>Properties of \<^verbatim>\<open>quantize\<close>\<close>

lemma quantize_while_stop:
  "\<not> (index < length partitions \<and> datum \<ge> real_of_int (partitions ! index) - halfstep) \<Longrightarrow>
   quantize_while partitions halfstep datum index = index"
  by (subst quantize_while.simps) auto

lemma quantize_while_step:
  "index < length partitions \<Longrightarrow> datum \<ge> real_of_int (partitions ! index) - halfstep \<Longrightarrow>
   quantize_while partitions halfstep datum index =
     quantize_while partitions halfstep datum (index + 1)"
  by (subst quantize_while.simps) simp

lemma quantize_while_default:
  assumes "k \<le> 90"
  shows "quantize_while (map int [0..<90]) (1/2) d k =
           (if d < real k - 1/2 then k else min 90 (nat \<lfloor>d + 1/2\<rfloor> + 1))"
  using assms
proof (induction "90 - k" arbitrary: k)
  case 0
  then have k: "k = 90" by simp
  have "quantize_while (map int [0..<90]) (1/2) d 90 = 90"
    by (rule quantize_while_stop) simp
  moreover have "90 \<le> nat \<lfloor>d + 1/2\<rfloor> + 1" if "\<not> d < 90 - 1/2"
  proof -
    from that have "(90::int) \<le> \<lfloor>d + 1/2\<rfloor>" by (simp add: le_floor_iff)
    then have "nat 90 \<le> nat \<lfloor>d + 1/2\<rfloor>" by (rule nat_mono)
    then show ?thesis by simp
  qed
  ultimately show ?case unfolding k by (simp add: min_def)
next
  case (Suc m)
  then have lt: "k < 90" by simp
  show ?case
  proof (cases "d < real k - 1/2")
    case True
    then have "quantize_while (map int [0..<90]) (1/2) d k = k"
      using lt by (intro quantize_while_stop) simp
    with True show ?thesis by simp
  next
    case False
    then have "quantize_while (map int [0..<90]) (1/2) d k =
        quantize_while (map int [0..<90]) (1/2) d (k + 1)"
      using lt by (intro quantize_while_step) simp_all
    also have "\<dots> = (if d < real (k + 1) - 1/2 then k + 1 else min 90 (nat \<lfloor>d + 1/2\<rfloor> + 1))"
      by (rule Suc.hyps(1)) (use Suc.hyps(2) lt in simp_all)
    also have "\<dots> = min 90 (nat \<lfloor>d + 1/2\<rfloor> + 1)"
    proof (cases "d < real (k + 1) - 1/2")
      case True
      with False have "\<lfloor>d + 1/2\<rfloor> = int k"
        by (intro floor_unique) simp_all
      with True lt show ?thesis by simp
    next
      case False
      then show ?thesis by simp
    qed
    finally show ?thesis using False by simp
  qed
qed

lemma quantize_sample:
  "py_index (map int [0..<91]) (int (quantize_while (map int [0..<90]) (1/2) d 0) - 1) =
     Inr (if d < - 1/2 then 90 else min 89 \<lfloor>d + 1/2\<rfloor>)"
proof (cases "d < - 1/2")
  case True
  then have "quantize_while (map int [0..<90]) (1/2) d 0 = 0"
    using quantize_while_default[of 0 d] by simp
  with True show ?thesis by (simp add: py_index_def)
next
  case False
  define F where "F = \<lfloor>d + 1/2\<rfloor>"
  have f: "0 \<le> F" unfolding F_def using False by (simp add: le_floor_iff)
  define j where "j = min 90 (nat F + 1)"
  have q: "quantize_while (map int [0..<90]) (1/2) d 0 = j"
    unfolding j_def F_def using quantize_while_default[of 0 d] False by simp
  have j: "0 < j" "j \<le> 90" unfolding j_def by simp_all
  have ji: "int j - 1 = min 89 F"
    unfolding j_def using f by (simp add: min_def) linarith
  have "py_index (map int [0..<91]) (int j - 1) = Inr (int j - 1)"
    using j by (simp add: py_index_def nat_diff_distrib')
  then show ?thesis unfolding q ji F_def using False by simp
qed

text \<open>
  With the default partitions and codebook, a sample \<open>d\<close> of at least \<open>- 1/2\<close> is mapped to
  \<open>\<lfloor>d + 1/2\<rfloor>\<close>, at most 89: the codebook value of the last boundary it reaches.  A sample
  below \<open>- 1/2\<close> leaves the loop with index 0, and \<^verbatim>\<open>codebook[index-1]\<close> then reads the last
  entry of the codebook, 90.  No value is negative, so the final clipping changes nothing.
\<close>

lemma quantize_default_map:
  "quantize_default data =
     Inr (map (\<lambda>d. if d < - 1/2 then 90 else min 89 \<lfloor>d + 1/2\<rfloor>) data)"
proof -
  have m: "mapM (\<lambda>datum. py_index (map int [0..<91])
                  (int (quantize_while (map int [0..<90]) (1/2) datum 0) - 1)) data =
           Inr (map (\<lambda>d. if d < - 1/2 then 90 else min 89 \<lfloor>d + 1/2\<rfloor>) data)"
    by (induction data) (simp_all add: quantize_sample)
  have h: "real_of_int (map int [0..<90] ! 1 - map int [0..<90] ! 0) / 2 = 1/2"
    by simp
  have c: "map (\<lambda>q. if q < 0 then 0 else q)
             (map (\<lambda>d. if d < - 1/2 then 90 else min 89 \<lfloor>d + 1/2\<rfloor>) data) =
           map (\<lambda>d. if d < - 1/2 then 90 else min 89 \<lfloor>d + 1/2\<rfloor>) data"
  proof -
    have "\<not> (if d < - 1/2 then 90 else min 89 \<lfloor>d + 1/2\<rfloor>) < 0" for d :: real
    proof (cases "d < - 1/2")
      case True
      then show ?thesis by simp
    next
      case False
      then have "0 \<le> \<lfloor>d + 1/2\<rfloor>" by (simp add: le_floor_iff)
      then show ?thesis using False by (simp add: min_def)
    qed
    then show ?thesis by (simp add: comp_def cong: map_cong)
  qed
  show ?thesis
    unfolding quantize_default_def quantize_def Let_def h m using c by simp
qed

text \<open>
  The example of the docstring, which promises \<^verbatim>\<open>[10, 40, 90, 40, 30]\<close>: the sample 3 lies
  below the lowest boundary and is promised the lowest code 10.
\<close>

lemma quantize_docstring_example:
  "quantize [3, 34, 84, 40, 23] [10, 20, 30, 40, 50, 60, 70, 80] [10, 20, 30, 40, 50, 60, 70, 80, 90]
     = Inr [90, 30, 80, 40, 20]"
  by (simp add: quantize_def quantize_while.simps py_index_def)

text \<open>
  C9: with the default partitions and codebook, the sample \<open>- 1\<close>, which lies below the lowest
  half-step-centered boundary \<open>- 1/2\<close>, is mapped to 90 and not to 0; the samples 0 and
  \<open>448/5\<close> are mapped to the codes 0 and 89 of the last boundary they reach.
\<close>

theorem quantize_default_below_range:
  "quantize_default [- 1, 0, 448/5] = Inr [90, 0, 89]"
  by (simp add: quantize_default_map)

section \<open>Properties of \<^verbatim>\<open>update_pull_hamm_slide\<close>\<close>

text \<open>The guarded branches: a pull or hammer marker that is set is never written again.\<close>

lemma mark_pull_keeps:
  assumes "k < length e" "pull (e ! k) \<noteq> 0"
  shows "pull (mark ''pull'' i e ! k) = pull (e ! k)"
proof -
  have "k \<noteq> Suc i \<or> pull (e ! Suc i) \<noteq> 0" "k \<noteq> i \<or> pull (e ! i) \<noteq> 0"
    using assms by auto
  then show ?thesis
    by (auto simp: mark_def)
qed

lemma mark_hamm_keeps:
  assumes "k < length e" "hamm (e ! k) \<noteq> 0"
  shows "hamm (mark ''hamm'' i e ! k) = hamm (e ! k)"
proof -
  have "k \<noteq> Suc i \<or> hamm (e ! Suc i) \<noteq> 0" "k \<noteq> i \<or> hamm (e ! i) \<noteq> 0"
    using assms by auto
  then show ?thesis
    by (auto simp: mark_def)
qed

lemma update_pull_example:
  "update_pull_hamm_slide
     [(mk_esn 60 0 1)\<lparr>pull := 1\<rparr>, (mk_esn 62 1 1)\<lparr>pull := 2\<rparr>, mk_esn 64 2 1]
     [\<lparr>cand_start = 3/2, cand_end = 5/2, label = 3\<rparr>] tech_index_dic_single =
   Inr [(mk_esn 60 0 1)\<lparr>pull := 1\<rparr>, (mk_esn 62 1 1)\<lparr>pull := 2\<rparr>, (mk_esn 64 2 1)\<lparr>pull := 2\<rparr>]"
  by (simp add: update_pull_hamm_slide_def phs_candi_body_def phs_note_body_def covers_def
      index_list_def tech_index_dic_single_def mark_def mk_esn_def esn_of_note_def
      upt_conv_Cons)

text \<open>
  C7: the slide branch has no guard.  On three consecutive notes of which the first two
  carry the start and stop markers of a slide, a slide candidate covering the second and
  third note overwrites the stop marker 2 of the second note with the start marker 1.
\<close>

theorem update_slide_overwrites:
  "update_pull_hamm_slide
     [(mk_esn 60 0 1)\<lparr>slide := 1\<rparr>, (mk_esn 62 1 1)\<lparr>slide := 2\<rparr>, mk_esn 64 2 1]
     [\<lparr>cand_start = 3/2, cand_end = 5/2, label = 4\<rparr>] tech_index_dic_single =
   Inr [(mk_esn 60 0 1)\<lparr>slide := 1\<rparr>, (mk_esn 62 1 1)\<lparr>slide := 1\<rparr>, (mk_esn 64 2 1)\<lparr>slide := 2\<rparr>]"
  by (simp add: update_pull_hamm_slide_def phs_candi_body_def phs_note_body_def covers_def
      index_list_def tech_index_dic_single_def mark_def mk_esn_def esn_of_note_def
      upt_conv_Cons)

end
